theory Spec2Isabelle
  imports Complex_Main "HOL-Library.Sublist"
begin

section \<open>Exceptions\<close>

text \<open>
  Every exception the modelled code can meet is an instance of Python's \<open>Exception\<close>,
  so each \<open>except Exception\<close> (and each bare \<open>except\<close>) of the source catches all of them.
  A call that may raise returns \<open>error + 'a\<close>, with \<open>Inl\<close> for the raise.
\<close>

datatype error =
    OSError             \<comment> \<open>\<open>os.listdir\<close> on a path that is not a readable directory\<close>
  | CvError             \<comment> \<open>raised by an OpenCV or NumPy call\<close>
  | ModelError          \<comment> \<open>raised by \<open>joblib.load\<close>, Keras or scikit-learn\<close>
  | AttributeError      \<comment> \<open>a method called on \<open>None\<close>\<close>
  | ZeroDivisionError

section \<open>The dataset builder (preprocessing.py)\<close>

subsection \<open>String operations\<close>

text \<open>
  A file name is the string of the bytes of its UTF-8 encoding. \<open>str.lower\<close> is a
  function of Python's library that knows the case mappings of Unicode; \<open>load_data\<close> takes
  it as its parameter \<open>str_lower\<close>, and nothing is assumed of it. A string of ASCII
  characters occurs in a text, and ends it, exactly when its bytes do so in the encoding.
\<close>

text \<open>\<open>p in s\<close> on strings: \<open>p\<close> occurs in \<open>s\<close> as a contiguous substring.\<close>

definition contains :: "string \<Rightarrow> string \<Rightarrow> bool" where
  "contains s p = sublist p s"

text \<open>\<open>s.endswith((suf1, suf2, ...))\<close>: one of the suffixes ends \<open>s\<close>.\<close>

definition endswith :: "string \<Rightarrow> string list \<Rightarrow> bool" where
  "endswith s sufs = list_ex (\<lambda>suf. suffix suf s) sufs"

subsection \<open>The two vocabularies\<close>

definition idle_classes :: "string list" where
  "idle_classes =
     [''writing_on_a_book'', ''reading'', ''drinking'', ''sleeping'',
      ''talking_on_phone'', ''smoking'', ''brushing_teeth'']"

definition active_classes :: "string list" where
  "active_classes =
     [''fixing_a_car'', ''playing_guitar'', ''cleaning_floor'',
      ''cooking'', ''riding_bike'', ''running'', ''cutting_vegetables'',
      ''using_computer'', ''hammering'', ''pouring_liquid'']"

text \<open>
  Lines 39 to 45 of \<open>load_data\<close>: the label of a file name. \<open>None\<close> is the
  \<open>continue\<close> of the \<open>else\<close> branch. The idle test comes first.
\<close>

definition label_of :: "(string \<Rightarrow> string) \<Rightarrow> string \<Rightarrow> int option" where
  "label_of str_lower img_file =
     (if list_ex (\<lambda>idle_class. contains (str_lower img_file) idle_class) idle_classes
        then Some 0
      else if list_ex (\<lambda>active_class. contains (str_lower img_file) active_class) active_classes
        then Some 1
      else None)"

subsection \<open>The file system and the decoder\<close>

text \<open>
  What \<open>cv2.imread\<close> does on a path: it returns an image, it returns \<open>None\<close>
  (the file is not a decodable image), or it raises.
\<close>

datatype 'img imread = Decoded 'img | NoImage | ImreadError

text \<open>
  What \<open>dataset_dir\<close> names: nothing (\<open>os.path.exists\<close> is false), something that
  \<open>os.listdir\<close> refuses, or a directory, given by its entries in \<open>os.listdir\<close> order,
  each with what \<open>cv2.imread\<close> does on it.
\<close>

datatype 'img path = Missing | NotListable | Dir "(string \<times> 'img imread) list"

text \<open>The lines the builder prints.\<close>

datatype msg =
    Dataset_directory_not_found
  | No_image_files_found
  | Found_image_files nat
  | Error_processing string error
  | Successfully_processed nat

text \<open>
  The two lists \<open>X\<close> and \<open>y\<close> that \<open>load_data\<close> fills and returns (as arrays),
  and what it has printed so far.
\<close>

record 'img dataset =
  data_X :: "'img list"
  data_y :: "int list"
  printed :: "msg list"

subsection \<open>load_data\<close>

text \<open>
  \<open>resize img img_size\<close> stands for \<open>cv2.resize(img, (img_size, img_size))\<close>, a call into
  OpenCV that returns the resized image or raises.

  The body of the \<open>for\<close> loop, lines 36 to 56, on one entry of \<open>image_files\<close>.
\<close>

definition process_file ::
  "(string \<Rightarrow> string) \<Rightarrow> ('img \<Rightarrow> int \<Rightarrow> error + 'img) \<Rightarrow> int \<Rightarrow> 'img dataset
     \<Rightarrow> string \<times> 'img imread \<Rightarrow> 'img dataset" where
  "process_file str_lower resize img_size d entry =
     (case label_of str_lower (fst entry) of
        None \<Rightarrow> d
      | Some label \<Rightarrow>
          (case snd entry of
             ImreadError \<Rightarrow> d\<lparr>printed := printed d @ [Error_processing (fst entry) CvError]\<rparr>
           | NoImage \<Rightarrow> d
           | Decoded img \<Rightarrow>
               (case resize img img_size of
                  Inl e \<Rightarrow> d\<lparr>printed := printed d @ [Error_processing (fst entry) e]\<rparr>
                | Inr img' \<Rightarrow> d\<lparr>data_X := data_X d @ [img'], data_y := data_y d @ [label]\<rparr>)))"

text \<open>The \<open>for\<close> loop over \<open>image_files\<close>.\<close>

fun load_loop ::
  "(string \<Rightarrow> string) \<Rightarrow> ('img \<Rightarrow> int \<Rightarrow> error + 'img) \<Rightarrow> int \<Rightarrow> 'img dataset
     \<Rightarrow> (string \<times> 'img imread) list \<Rightarrow> 'img dataset" where
  "load_loop str_lower resize img_size d [] = d"
| "load_loop str_lower resize img_size d (entry # rest) =
     load_loop str_lower resize img_size (process_file str_lower resize img_size d entry) rest"

text \<open>Line 27: the entries whose lowercased name ends in a supported extension.\<close>

definition image_files ::
  "(string \<Rightarrow> string) \<Rightarrow> (string \<times> 'img imread) list \<Rightarrow> (string \<times> 'img imread) list" where
  "image_files str_lower entries =
     filter (\<lambda>entry. endswith (str_lower (fst entry)) [''.jpg'', ''.jpeg'', ''.png'']) entries"

definition load_data ::
  "(string \<Rightarrow> string) \<Rightarrow> ('img \<Rightarrow> int \<Rightarrow> error + 'img) \<Rightarrow> 'img path \<Rightarrow> int
     \<Rightarrow> error + 'img dataset" where
  "load_data str_lower resize dataset_dir img_size =
     (case dataset_dir of
        Missing \<Rightarrow>
          Inr \<lparr>data_X = [], data_y = [], printed = [Dataset_directory_not_found]\<rparr>
      | NotListable \<Rightarrow> Inl OSError
      | Dir entries \<Rightarrow>
          (if image_files str_lower entries = [] then
             Inr \<lparr>data_X = [], data_y = [], printed = [No_image_files_found]\<rparr>
           else
             (let d = load_loop str_lower resize img_size
                        \<lparr>data_X = [], data_y = [],
                          printed =
                            [Found_image_files (length (image_files str_lower entries))]\<rparr>
                        (image_files str_lower entries)
              in Inr (d\<lparr>printed := printed d @ [Successfully_processed (length (data_X d))]\<rparr>))))"

text \<open>The pair of arrays that \<open>load_data\<close> returns, without what it printed.\<close>

definition samples :: "error + 'img dataset \<Rightarrow> error + 'img list \<times> int list" where
  "samples r = (case r of Inl e \<Rightarrow> Inl e | Inr d \<Rightarrow> Inr (data_X d, data_y d))"

section \<open>The classifier and the feature extractor (module level of both pages)\<close>

text \<open>
  \<open>clf\<close> and \<open>feature_extractor\<close> are the two module globals; each is \<open>None\<close> or an
  object whose \<open>predict\<close> returns a value or raises. \<open>prep\<close> stands for the three library
  calls made on a frame before prediction: \<open>cv2.resize(frame, (128, 128))\<close>,
  \<open>np.expand_dims\<close> and \<open>preprocess_input\<close>. \<open>'f\<close> is the type of frames, \<open>'x\<close> of
  network inputs, \<open>'v\<close> of feature vectors. The classifier's answer is \<open>clf.predict(features)[0]\<close>.
  \<open>cvtColor\<close> stands for \<open>cv2.cvtColor(frame, cv2.COLOR_BGR2RGB)\<close>, the library call that
  opens the lines showing a frame: it returns the converted image or raises. Both pages
  make this call outside every \<open>try\<close>.
\<close>

record ('f, 'x, 'v) env =
  prep :: "'f \<Rightarrow> error + 'x"
  cvtColor :: "'f \<Rightarrow> error + 'f"
  clf :: "('v \<Rightarrow> error + int) option"
  feature_extractor :: "('x \<Rightarrow> error + 'v) option"

text \<open>
  The \<open>try\<close> at the top of livevideo.py and mp4video.py: \<open>joblib.load\<close>, then the
  construction of MobileNetV2; if either raises, both globals are set to \<open>None\<close>.
\<close>

definition load_models ::
  "('f \<Rightarrow> error + 'x) \<Rightarrow> ('f \<Rightarrow> error + 'f) \<Rightarrow> error + ('v \<Rightarrow> error + int)
     \<Rightarrow> error + ('x \<Rightarrow> error + 'v) \<Rightarrow> ('f, 'x, 'v) env" where
  "load_models p cvt joblib_load mobilenet =
     (case joblib_load of
        Inl e \<Rightarrow> \<lparr>prep = p, cvtColor = cvt, clf = None, feature_extractor = None\<rparr>
      | Inr c \<Rightarrow>
          (case mobilenet of
             Inl e \<Rightarrow> \<lparr>prep = p, cvtColor = cvt, clf = None, feature_extractor = None\<rparr>
           | Inr fe \<Rightarrow>
               \<lparr>prep = p, cvtColor = cvt, clf = Some c, feature_extractor = Some fe\<rparr>))"

text \<open>The test \<open>clf and feature_extractor\<close>.\<close>

definition loaded :: "('f, 'x, 'v) env \<Rightarrow> bool" where
  "loaded e = (clf e \<noteq> None \<and> feature_extractor e \<noteq> None)"

text \<open>
  The prediction lines of a \<open>try\<close> block: preprocess the frame, extract the features,
  classify. The first call that raises ends the block.
\<close>

definition predict :: "('f, 'x, 'v) env \<Rightarrow> 'f \<Rightarrow> error + int" where
  "predict e frame =
     (case prep e frame of
        Inl err \<Rightarrow> Inl err
      | Inr x \<Rightarrow>
          (case feature_extractor e of
             None \<Rightarrow> Inl AttributeError
           | Some fe \<Rightarrow>
               (case fe x of
                  Inl err \<Rightarrow> Inl err
                | Inr features \<Rightarrow>
                    (case clf e of
                       None \<Rightarrow> Inl AttributeError
                     | Some c \<Rightarrow> c features))))"

section \<open>What a page shows\<close>

text \<open>
  The texts of the labels, without their emoji and style sheets (each text is set
  together with one fixed style sheet).
\<close>

datatype pred_text =
    Initializing              \<comment> \<open>live page, at start\<close>
  | Waiting_for_video         \<comment> \<open>MP4 page, at start\<close>
  | Active_worker
  | Idle_worker_detected
  | Prediction_error

datatype alert_text =
    System_ready                    \<comment> \<open>live page, at start\<close>
  | Status_normal_worker_active
  | Alert_worker_idle
  | Ready_for_video_upload          \<comment> \<open>MP4 page, at start\<close>
  | Video_loaded_ready_to_play
  | Playing_video

datatype 'f video_text =
    Empty_label
  | Camera_not_available
  | Upload_a_video
  | Pixmap 'f                       \<comment> \<open>the converted image last passed to \<open>setPixmap\<close>\<close>

text \<open>
  The fields the two pages have in common. \<open>active_stats\<close> and \<open>idle_stats\<close> hold the
  number shown in the text of the label. \<open>rendered\<close> and \<open>classified\<close> are not fields of
  the source: they record, in order, every frame that was converted and shown with
  \<open>setPixmap\<close>, and every frame on which the prediction lines ran, with their outcome.
  A slot of a page returns the new state or, when an exception leaves it, the exception;
  PyQt ends the program on an exception that leaves a slot.
\<close>

record 'f page =
  video_label :: "'f video_text"
  pred_label :: pred_text
  alert_label :: alert_text
  active_count :: int
  idle_count :: int
  active_stats :: int
  idle_stats :: int
  rendered :: "'f list"
  classified :: "('f \<times> (error + int)) list"

text \<open>The entries of \<open>classified\<close> whose prediction did not raise.\<close>

definition ok_count :: "('f \<times> (error + int)) list \<Rightarrow> int" where
  "ok_count trace = int (length (filter (\<lambda>entry. \<not> isl (snd entry)) trace))"

section \<open>The live page (livevideo.py)\<close>

text \<open>
  \<open>cap_opened\<close> says that \<open>self.cap\<close> is a capture and \<open>isOpened()\<close> holds. The camera
  is outside the program: what \<open>self.cap.read()\<close> returns at a tick is an argument of
  \<open>update_frame\<close>, \<open>None\<close> when \<open>ret\<close> is false and \<open>Some frame\<close> otherwise.
\<close>

record 'f live_page = "'f page" +
  cap_opened :: bool
  live_timer :: "int option"        \<comment> \<open>the interval, while the timer runs\<close>

text \<open>\<open>__init__\<close>, \<open>setup_ui\<close> and \<open>start_camera\<close>; the argument says whether camera 0 opens.\<close>

definition live_init :: "bool \<Rightarrow> 'f live_page" where
  "live_init opens =
     \<lparr>video_label = (if opens then Empty_label else Camera_not_available),
      pred_label = Initializing, alert_label = System_ready,
      active_count = 0, idle_count = 0, active_stats = 0, idle_stats = 0,
      rendered = [], classified = [],
      cap_opened = opens, live_timer = (if opens then Some 30 else None)\<rparr>"

text \<open>Lines 324 to 403: the prediction block of \<open>LiveVideoPage.update_frame\<close>.\<close>

definition live_predict_block :: "('f, 'x, 'v) env \<Rightarrow> 'f \<Rightarrow> 'f live_page \<Rightarrow> 'f live_page" where
  "live_predict_block e frame s =
     (if loaded e then
        (case predict e frame of
           Inr pred \<Rightarrow>
             (let s1 =
                (if pred = 1 then
                   s\<lparr>pred_label := Active_worker, alert_label := Status_normal_worker_active,
                     active_count := active_count s + 1\<rparr>
                 else
                   s\<lparr>pred_label := Idle_worker_detected, alert_label := Alert_worker_idle,
                     idle_count := idle_count s + 1\<rparr>)
              in s1\<lparr>active_stats := active_count s1, idle_stats := idle_count s1,
                    classified := classified s1 @ [(frame, Inr pred)]\<rparr>)
         | Inl err \<Rightarrow>
             s\<lparr>pred_label := Prediction_error,
               classified := classified s @ [(frame, Inl err)]\<rparr>)
      else s)"

text \<open>
  \<open>LiveVideoPage.update_frame\<close>, the slot of the timer. The lines that show the frame
  (406 to 411) come after the prediction block and outside its \<open>try\<close>: when
  \<open>cv2.cvtColor\<close> raises, the exception leaves the slot.
\<close>

definition live_update_frame ::
  "('f, 'x, 'v) env \<Rightarrow> 'f option \<Rightarrow> 'f live_page \<Rightarrow> error + 'f live_page" where
  "live_update_frame e ret_frame s =
     (if \<not> cap_opened s then Inr s
      else
        (case ret_frame of
           None \<Rightarrow> Inr s
         | Some frame \<Rightarrow>
             (let s1 = live_predict_block e frame s
              in case cvtColor e frame of
                   Inl err \<Rightarrow> Inl err
                 | Inr rgb \<Rightarrow>
                     Inr (s1\<lparr>video_label := Pixmap rgb, rendered := rendered s1 @ [frame]\<rparr>))))"

text \<open>
  The timer fires once for each element of the list of camera reads, until an exception
  leaves the slot.
\<close>

fun live_run ::
  "('f, 'x, 'v) env \<Rightarrow> 'f live_page \<Rightarrow> 'f option list \<Rightarrow> error + 'f live_page" where
  "live_run e s [] = Inr s"
| "live_run e s (ret_frame # rest) =
     (case live_update_frame e ret_frame s of
        Inl err \<Rightarrow> Inl err
      | Inr s' \<Rightarrow> live_run e s' rest)"

text \<open>The frames among the camera reads.\<close>

definition frames_of :: "'f option list \<Rightarrow> 'f list" where
  "frames_of reads = concat (map (\<lambda>r. case r of None \<Rightarrow> [] | Some frame \<Rightarrow> [frame]) reads)"


section \<open>The worker thread (mp4video.py, VideoProcessor)\<close>

text \<open>
  A video file as \<open>cv2.VideoCapture\<close> presents it: whether it opened, its frames, the
  index of the frame the next \<open>read\<close> returns, and the two properties the page asks for
  (\<open>CAP_PROP_FRAME_COUNT\<close> and \<open>CAP_PROP_FPS\<close>).
\<close>

record 'f capture =
  is_opened :: bool
  frames :: "'f list"
  pos :: int
  prop_frame_count :: int
  prop_fps :: rat

text \<open>\<open>cap.read()\<close>: the frame at the position and the advanced capture, or \<open>None\<close> for \<open>ret = False\<close>.\<close>

definition read :: "'f capture \<Rightarrow> ('f \<times> 'f capture) option" where
  "read c =
     (if is_opened c \<and> 0 \<le> pos c \<and> pos c < int (length (frames c))
      then Some (frames c ! nat (pos c), c\<lparr>pos := pos c + 1\<rparr>)
      else None)"

text \<open>The signals the thread emits.\<close>

datatype 'f signal =
    Frame_processed 'f int nat      \<comment> \<open>frame, prediction, frame number\<close>
  | Processing_complete

text \<open>
  Lines 186 to 204: the prediction sent with a sampled frame. The frame is preprocessed
  before the globals are tested; without them the prediction is 0, and the \<open>except\<close>
  branch emits 0 as well. Emitting the signal is taken not to raise.
\<close>

definition sampled_pred :: "('f, 'x, 'v) env \<Rightarrow> 'f \<Rightarrow> int" where
  "sampled_pred e frame =
     (case prep e frame of
        Inl err \<Rightarrow> 0
      | Inr x \<Rightarrow>
          (if loaded e then
             (case predict e frame of Inl err \<Rightarrow> 0 | Inr pred \<Rightarrow> pred)
           else 0))"

text \<open>
  The \<open>while\<close> loop of \<open>run\<close> on the frames still to be read; \<open>is_running\<close> is set in
  \<open>__init__\<close> and never cleared. The loop ends at the first \<open>read\<close> with \<open>ret = False\<close>.
\<close>

fun run_loop :: "('f, 'x, 'v) env \<Rightarrow> 'f list \<Rightarrow> nat \<Rightarrow> 'f signal list" where
  "run_loop e [] frame_count = []"
| "run_loop e (frame # rest) frame_count =
     (if frame_count mod 5 = 0
      then Frame_processed frame (sampled_pred e frame) frame_count
             # run_loop e rest (frame_count + 1)
      else run_loop e rest (frame_count + 1))"

definition run :: "('f, 'x, 'v) env \<Rightarrow> 'f capture \<Rightarrow> 'f signal list" where
  "run e c = run_loop e (if is_opened c then frames c else []) 0 @ [Processing_complete]"

text \<open>The frame numbers of the \<open>frame_processed\<close> signals, in order.\<close>

definition sampled_numbers :: "'f signal list \<Rightarrow> nat list" where
  "sampled_numbers sigs =
     concat (map (\<lambda>sg. case sg of Frame_processed f p k \<Rightarrow> [k] | Processing_complete \<Rightarrow> []) sigs)"

section \<open>The MP4 page (mp4video.py, MP4VideoPage)\<close>

text \<open>
  The frame slider is a Qt \<open>QSlider\<close>, with its range and value. Line 314 connects its
  \<open>valueChanged\<close> signal to \<open>seek_frame\<close>, so a \<open>setValue\<close> that changes the value calls
  \<open>seek_frame\<close> before it returns. The buttons, the progress bar and the label of the
  frame total are written by the page and read by none of its methods; they are left out.
\<close>

record 'f mp4_page = "'f page" +
  cap :: "'f capture option"
  is_playing :: bool
  current_frame :: int
  total_frames :: int
  fps :: rat
  timer :: "int option"             \<comment> \<open>the interval, while the timer runs\<close>
  slider_minimum :: int
  slider_maximum :: int
  slider_value :: int

text \<open>\<open>__init__\<close> and \<open>setup_ui\<close>; a new \<open>QSlider\<close> has range 0 to 99 and value 0.\<close>

definition mp4_init :: "'f mp4_page" where
  "mp4_init =
     \<lparr>video_label = Upload_a_video,
      pred_label = Waiting_for_video, alert_label = Ready_for_video_upload,
      active_count = 0, idle_count = 0, active_stats = 0, idle_stats = 0,
      rendered = [], classified = [],
      cap = None, is_playing = False, current_frame = 0, total_frames = 0, fps = 30,
      timer = None, slider_minimum = 0, slider_maximum = 99, slider_value = 0\<rparr>"

text \<open>
  \<open>display_frame\<close>: \<open>cv2.cvtColor\<close> is its first line, and no caller wraps the call in a
  \<open>try\<close>.
\<close>

definition display_frame ::
  "('f, 'x, 'v) env \<Rightarrow> 'f \<Rightarrow> 'f mp4_page \<Rightarrow> error + 'f mp4_page" where
  "display_frame e frame s =
     (case cvtColor e frame of
        Inl err \<Rightarrow> Inl err
      | Inr rgb \<Rightarrow> Inr (s\<lparr>video_label := Pixmap rgb, rendered := rendered s @ [frame]\<rparr>))"

text \<open>\<open>analyze_frame\<close>: all its lines that can raise are inside its \<open>try\<close>.\<close>

definition analyze_frame :: "('f, 'x, 'v) env \<Rightarrow> 'f \<Rightarrow> 'f mp4_page \<Rightarrow> 'f mp4_page" where
  "analyze_frame e frame s =
     (if loaded e then
        (case predict e frame of
           Inr pred \<Rightarrow>
             (let s1 =
                (if pred = 1 then
                   s\<lparr>pred_label := Active_worker, active_count := active_count s + 1\<rparr>
                 else
                   s\<lparr>pred_label := Idle_worker_detected, idle_count := idle_count s + 1\<rparr>)
              in s1\<lparr>active_stats := active_count s1, idle_stats := idle_count s1,
                    classified := classified s1 @ [(frame, Inr pred)]\<rparr>)
         | Inl err \<Rightarrow>
             s\<lparr>pred_label := Prediction_error,
               classified := classified s @ [(frame, Inl err)]\<rparr>)
      else s)"

definition seek_frame ::
  "('f, 'x, 'v) env \<Rightarrow> int \<Rightarrow> 'f mp4_page \<Rightarrow> error + 'f mp4_page" where
  "seek_frame e frame_number s =
     (case cap s of
        None \<Rightarrow> Inr s
      | Some c \<Rightarrow>
          (if \<not> is_opened c then Inr s
           else
             (let c1 = c\<lparr>pos := frame_number\<rparr>;
                  s1 = s\<lparr>cap := Some c1, current_frame := frame_number\<rparr>
              in case read c1 of
                   None \<Rightarrow> Inr s1
                 | Some (frame, c2) \<Rightarrow>
                     (case display_frame e frame (s1\<lparr>cap := Some c2\<rparr>) of
                        Inl err \<Rightarrow> Inl err
                      | Inr s2 \<Rightarrow> Inr (analyze_frame e frame s2)))))"

text \<open>
  \<open>QSlider.setValue\<close>: the value is bounded by the range; when it differs from the
  present value it is stored and \<open>valueChanged\<close> is emitted, which runs \<open>seek_frame\<close>.
\<close>

definition slider_setValue ::
  "('f, 'x, 'v) env \<Rightarrow> int \<Rightarrow> 'f mp4_page \<Rightarrow> error + 'f mp4_page" where
  "slider_setValue e v s =
     (let v' = max (slider_minimum s) (min (slider_maximum s) v)
      in if v' = slider_value s then Inr s
         else seek_frame e v' (s\<lparr>slider_value := v'\<rparr>))"

text \<open>
  \<open>QSlider.setMaximum\<close>: the minimum is lowered to the new maximum when it lies above
  it; when the range changes, the value is bounded again through \<open>setValue\<close>.
\<close>

definition slider_setMaximum ::
  "('f, 'x, 'v) env \<Rightarrow> int \<Rightarrow> 'f mp4_page \<Rightarrow> error + 'f mp4_page" where
  "slider_setMaximum e m s =
     (let mn = min (slider_minimum s) m
      in if mn = slider_minimum s \<and> m = slider_maximum s then Inr s
         else slider_setValue e (slider_value s) (s\<lparr>slider_minimum := mn, slider_maximum := m\<rparr>))"

text \<open>
  \<open>load_video\<close>, called by \<open>upload_video\<close> once a file is chosen; the argument is what
  \<open>cv2.VideoCapture(self.video_path)\<close> returns.
\<close>

definition load_video ::
  "('f, 'x, 'v) env \<Rightarrow> 'f capture \<Rightarrow> 'f mp4_page \<Rightarrow> error + 'f mp4_page" where
  "load_video e c s =
     (if \<not> is_opened c then Inr (s\<lparr>cap := Some c\<rparr>)
      else
        (let s1 = s\<lparr>cap := Some c, total_frames := prop_frame_count c, fps := prop_fps c\<rparr>
         in case slider_setMaximum e (total_frames s1 - 1) s1 of
              Inl err \<Rightarrow> Inl err
            | Inr s2 \<Rightarrow>
                (case cap s2 of
                   None \<Rightarrow> Inr (s2\<lparr>alert_label := Video_loaded_ready_to_play\<rparr>)
                 | Some c2 \<Rightarrow>
                     (case read c2 of
                        None \<Rightarrow> Inr (s2\<lparr>alert_label := Video_loaded_ready_to_play\<rparr>)
                      | Some (frame, c3) \<Rightarrow>
                          (case display_frame e frame (s2\<lparr>cap := Some c3\<rparr>) of
                             Inl err \<Rightarrow> Inl err
                           | Inr s3 \<Rightarrow>
                               Inr (s3\<lparr>cap := Some (c3\<lparr>pos := 0\<rparr>),
                                       alert_label := Video_loaded_ready_to_play\<rparr>))))))"

text \<open>
  \<open>play_video\<close>: \<open>int(1000 / self.fps)\<close> truncates towards zero, and the division
  raises when the file reports 0 frames per second; the exception leaves the slot.
\<close>

definition play_video :: "'f mp4_page \<Rightarrow> error + 'f mp4_page" where
  "play_video s =
     (case cap s of
        None \<Rightarrow> Inr s
      | Some c \<Rightarrow>
          (if \<not> is_opened c then Inr s
           else if fps s = 0 then Inl ZeroDivisionError
           else Inr (s\<lparr>is_playing := True,
                       timer := Some (if 1000 / fps s < 0 then \<lceil>1000 / fps s\<rceil>
                                      else \<lfloor>1000 / fps s\<rfloor>),
                       alert_label := Playing_video\<rparr>)))"

definition pause_video :: "'f mp4_page \<Rightarrow> 'f mp4_page" where
  "pause_video s = s\<lparr>is_playing := False, timer := None\<rparr>"

definition toggle_play :: "'f mp4_page \<Rightarrow> error + 'f mp4_page" where
  "toggle_play s = (if \<not> is_playing s then play_video s else Inr (pause_video s))"

definition stop_video :: "('f, 'x, 'v) env \<Rightarrow> 'f mp4_page \<Rightarrow> error + 'f mp4_page" where
  "stop_video e s =
     (let s1 = s\<lparr>is_playing := False, timer := None\<rparr>
      in case cap s1 of
           None \<Rightarrow> Inr s1
         | Some c \<Rightarrow>
             (case slider_setValue e 0 (s1\<lparr>cap := Some (c\<lparr>pos := 0\<rparr>), current_frame := 0\<rparr>) of
                Inl err \<Rightarrow> Inl err
              | Inr s2 \<Rightarrow>
                  (case cap s2 of
                     None \<Rightarrow> Inr s2
                   | Some c2 \<Rightarrow>
                       (case read c2 of
                          None \<Rightarrow> Inr s2
                        | Some (frame, c3) \<Rightarrow> display_frame e frame (s2\<lparr>cap := Some c3\<rparr>)))))"

text \<open>\<open>MP4VideoPage.update_frame\<close>, the slot of the timer.\<close>

definition update_frame :: "('f, 'x, 'v) env \<Rightarrow> 'f mp4_page \<Rightarrow> error + 'f mp4_page" where
  "update_frame e s =
     (case cap s of
        None \<Rightarrow> Inr s
      | Some c \<Rightarrow>
          (if \<not> (is_opened c \<and> is_playing s) then Inr s
           else
             (case read c of
                None \<Rightarrow> stop_video e s
              | Some (frame, c1) \<Rightarrow>
                  (let s1 = s\<lparr>cap := Some c1, current_frame := current_frame s + 1\<rparr>
                   in case slider_setValue e (current_frame s1) s1 of
                        Inl err \<Rightarrow> Inl err
                      | Inr s2 \<Rightarrow>
                          (case display_frame e frame s2 of
                             Inl err \<Rightarrow> Inl err
                           | Inr s3 \<Rightarrow>
                               (let s4 = analyze_frame e frame s3
                                in if current_frame s4 \<ge> total_frames s4 - 1
                                   then stop_video e s4 else Inr s4))))))"

text \<open>
  The timer calls its slot while it runs; \<open>ticks e n\<close> is \<open>n\<close> timeouts in a row, up to
  an exception that leaves the slot.
\<close>

definition timeout :: "('f, 'x, 'v) env \<Rightarrow> 'f mp4_page \<Rightarrow> error + 'f mp4_page" where
  "timeout e s = (if timer s = None then Inr s else update_frame e s)"

fun ticks :: "('f, 'x, 'v) env \<Rightarrow> nat \<Rightarrow> 'f mp4_page \<Rightarrow> error + 'f mp4_page" where
  "ticks e 0 s = Inr s"
| "ticks e (Suc n) s =
     (case timeout e s of Inl err \<Rightarrow> Inl err | Inr s' \<Rightarrow> ticks e n s')"

text \<open>What the counters promise: their sum, less the predictions that did not raise.\<close>

definition tally :: "('f, 'z) page_scheme \<Rightarrow> int" where
  "tally s = active_count s + idle_count s - ok_count (classified s)"

text \<open>
  What can happen to the page, in any order: a file is chosen in the upload dialog, the
  play button or the stop button is clicked, the slider is moved to a value, the timer
  fires. Whether a control is enabled at that moment is not looked at, so the sequences
  of events include all those the user interface allows. An exception that leaves a slot
  ends the run.
\<close>

datatype 'f event =
    Upload "'f capture"
  | Play_clicked
  | Stop_clicked
  | Slider_moved int
  | Timer_fired

definition handle :: "('f, 'x, 'v) env \<Rightarrow> 'f event \<Rightarrow> 'f mp4_page \<Rightarrow> error + 'f mp4_page" where
  "handle e ev s =
     (case ev of
        Upload c \<Rightarrow> load_video e c s
      | Play_clicked \<Rightarrow> toggle_play s
      | Stop_clicked \<Rightarrow> stop_video e s
      | Slider_moved v \<Rightarrow> slider_setValue e v s
      | Timer_fired \<Rightarrow> timeout e s)"

fun run_events ::
  "('f, 'x, 'v) env \<Rightarrow> 'f mp4_page \<Rightarrow> 'f event list \<Rightarrow> error + 'f mp4_page" where
  "run_events e s [] = Inr s"
| "run_events e s (ev # rest) =
     (case handle e ev s of Inl err \<Rightarrow> Inl err | Inr s' \<Rightarrow> run_events e s' rest)"

text \<open>
  A later state of a page extends an earlier one when the two records of the earlier
  state begin those of the later one.
\<close>

definition extends :: "('f, 'z) page_scheme \<Rightarrow> ('f, 'z) page_scheme \<Rightarrow> bool" where
  "extends s s' = (prefix (rendered s) (rendered s') \<and> prefix (classified s) (classified s'))"

section \<open>Example inputs\<close>

text \<open>
  Frames are numbered, and every frame can be shown; the stub classifier answers 0 on even
  frames and 1 on odd ones, and the faulty one raises on every frame that is a multiple of
  3. In the third setting the classifier raises on every frame, and a negative number
  stands for a frame that cannot be shown: \<open>cv2.cvtColor\<close> raises on it. The frame -1
  is one that \<open>cv2.resize\<close> refuses as well; the frame -2 resizes.
\<close>

definition stub_env :: "(int, int, int) env" where
  "stub_env =
     \<lparr>prep = Inr, cvtColor = Inr, clf = Some (\<lambda>v. Inr (v mod 2)),
      feature_extractor = Some Inr\<rparr>"

definition faulty_env :: "(int, int, int) env" where
  "faulty_env =
     \<lparr>prep = Inr, cvtColor = Inr,
      clf = Some (\<lambda>v. if v mod 3 = 0 then Inl ModelError else Inr (v mod 2)),
      feature_extractor = Some Inr\<rparr>"


text \<open>The globals after a start without the classifier file.\<close>

definition absent_env :: "(int, int, int) env" where
  "absent_env = load_models Inr Inr (Inl OSError) (Inr Inr)"

text \<open>\<open>str.lower\<close> on a text of ASCII characters: \<open>A\<close>..\<open>Z\<close> become \<open>a\<close>..\<open>z\<close>.\<close>

definition lower_char :: "char \<Rightarrow> char" where
  "lower_char c =
     (case map_of (zip ''ABCDEFGHIJKLMNOPQRSTUVWXYZ'' ''abcdefghijklmnopqrstuvwxyz'') c of
        Some d \<Rightarrow> d
      | None \<Rightarrow> c)"

definition ascii_lower :: "string \<Rightarrow> string" where
  "ascii_lower s = map lower_char s"

text \<open>
  A lowercasing that also knows one mapping outside ASCII: the three bytes of the Kelvin
  sign (U+212A) become \<open>k\<close>, as \<open>str.lower\<close> has it.
\<close>

fun kelvin_lower :: "string \<Rightarrow> string" where
  "kelvin_lower (a # b # c # rest) =
     (if [a, b, c] = [char_of (226 :: nat), char_of (132 :: nat), char_of (170 :: nat)]
      then CHR ''k'' # kelvin_lower rest
      else lower_char a # kelvin_lower (b # c # rest))"
| "kelvin_lower s = map lower_char s"

text \<open>The name \<open>coo\<close>, Kelvin sign, \<open>ing_05.jpg\<close>.\<close>

definition kelvin_name :: string where
  "kelvin_name =
     ''coo'' @ [char_of (226 :: nat), char_of (132 :: nat), char_of (170 :: nat)] @ ''ing_05.jpg''"

definition ten_frames :: "int capture" where
  "ten_frames =
     \<lparr>is_opened = True, frames = [0, 1, 2, 3, 4, 5, 6, 7, 8, 9], pos = 0,
      prop_frame_count = 10, prop_fps = 25\<rparr>"

text \<open>An image is given by its height and width; resizing to a positive size succeeds.\<close>

definition square_resize :: "int \<times> int \<Rightarrow> int \<Rightarrow> error + int \<times> int" where
  "square_resize img img_size = (if img_size \<le> 0 then Inl CvError else Inr (img_size, img_size))"

definition example_dir :: "(int \<times> int) path" where
  "example_dir =
     Dir [(''reading_01.jpg'', Decoded (480, 640)),
          (''running_02.jpg'', Decoded (300, 200)),
          (''unknown_03.jpg'', Decoded (64, 64))]"


section \<open>Properties of the dataset builder\<close>







text \<open>The data of a run depend on the data it starts from, not on what was printed.\<close>

lemma process_file_data_cong:
  "data_X d = data_X d' \<Longrightarrow> data_y d = data_y d' \<Longrightarrow>
   data_X (process_file lw resize n d e) = data_X (process_file lw resize n d' e) \<and>
   data_y (process_file lw resize n d e) = data_y (process_file lw resize n d' e)"
  by (simp add: process_file_def split: option.splits imread.splits sum.splits)

lemma load_loop_data_cong:
  "data_X d = data_X d' \<Longrightarrow> data_y d = data_y d' \<Longrightarrow>
   data_X (load_loop lw resize n d es) = data_X (load_loop lw resize n d' es) \<and>
   data_y (load_loop lw resize n d es) = data_y (load_loop lw resize n d' es)"
proof (induction es arbitrary: d d')
  case Nil
  then show ?case by simp
next
  case (Cons e es)
  show ?case
    using Cons.IH [OF process_file_data_cong [OF Cons.prems, THEN conjunct1]
                      process_file_data_cong [OF Cons.prems, THEN conjunct2]]
    by simp
qed

lemma load_loop_append:
  "load_loop lw resize n d (es @ es') = load_loop lw resize n (load_loop lw resize n d es) es'"
  by (induction es arbitrary: d) simp_all

lemma process_file_undecodable:
  "c = NoImage \<or> c = ImreadError \<Longrightarrow>
   data_X (process_file lw resize n d (f, c)) = data_X d \<and>
   data_y (process_file lw resize n d (f, c)) = data_y d"
  by (auto simp add: process_file_def split: option.splits)

lemma samples_load_data_Dir:
  "samples (load_data lw resize (Dir entries) n) =
   Inr (data_X (load_loop lw resize n \<lparr>data_X = [], data_y = [], printed = []\<rparr> (image_files lw entries)),
        data_y (load_loop lw resize n \<lparr>data_X = [], data_y = [], printed = []\<rparr> (image_files lw entries)))"
proof (cases "image_files lw entries = []")
  case True
  then show ?thesis by (simp add: samples_def load_data_def)
next
  case False
  then show ?thesis
    using load_loop_data_cong [of "\<lparr>data_X = [], data_y = [],
        printed = [Found_image_files (length (image_files lw entries))]\<rparr>"
        "\<lparr>data_X = [], data_y = [], printed = []\<rparr>" lw resize n "image_files lw entries"]
    by (simp add: samples_def load_data_def Let_def)
qed

lemma skip_undecodable:
  assumes "c = NoImage \<or> c = ImreadError"
  shows "samples (load_data lw resize (Dir (before @ (f, c) # after)) n) =
         samples (load_data lw resize (Dir (before @ after)) n)"
proof -
  let ?d0 = "\<lparr>data_X = [], data_y = [], printed = []\<rparr> :: 'a dataset"
  let ?d1 = "load_loop lw resize n ?d0 (image_files lw before)"
  have step: "data_X (load_loop lw resize n (process_file lw resize n ?d1 (f, c)) es) =
                data_X (load_loop lw resize n ?d1 es) \<and>
              data_y (load_loop lw resize n (process_file lw resize n ?d1 (f, c)) es) =
                data_y (load_loop lw resize n ?d1 es)" for es
    using process_file_undecodable [OF assms, of lw resize n ?d1 f]
    by (intro load_loop_data_cong) simp_all
  show ?thesis
    by (simp add: samples_load_data_Dir image_files_def load_loop_append
          step [unfolded image_files_def])
qed


lemma label_of_None_process_file:
  "label_of lw f = None \<Longrightarrow> process_file lw resize n d (f, c) = d"
  by (simp add: process_file_def)

lemma label_of_cases:
  "label_of lw f =
     (if \<exists>c\<in>set idle_classes. sublist c (lw f) then Some 0
      else if \<exists>c\<in>set active_classes. sublist c (lw f) then Some 1
      else None)"
  by (simp add: label_of_def contains_def list_ex_iff)

text \<open>What a file adds to the two lists does not depend on what they hold already.\<close>

lemma process_file_delta:
  "data_X (process_file lw resize n d e) =
     data_X d @ data_X (process_file lw resize n \<lparr>data_X = [], data_y = [], printed = []\<rparr> e) \<and>
   data_y (process_file lw resize n d e) =
     data_y d @ data_y (process_file lw resize n \<lparr>data_X = [], data_y = [], printed = []\<rparr> e)"
  by (simp add: process_file_def split: option.splits imread.splits sum.splits)

lemma load_loop_delta:
  "data_X (load_loop lw resize n d es) =
     data_X d @ data_X (load_loop lw resize n \<lparr>data_X = [], data_y = [], printed = []\<rparr> es) \<and>
   data_y (load_loop lw resize n d es) =
     data_y d @ data_y (load_loop lw resize n \<lparr>data_X = [], data_y = [], printed = []\<rparr> es)"
proof (induction es arbitrary: d)
  case Nil
  show ?case by simp
next
  case (Cons e es)
  let ?empty = "\<lparr>data_X = [], data_y = [], printed = []\<rparr> :: 'a dataset"
  note step = process_file_delta [of lw resize n d e]
  note here = Cons.IH [of "process_file lw resize n d e"]
  note there = Cons.IH [of "process_file lw resize n ?empty e"]
  show ?case
    using step here there by simp
qed

lemma samples_load_data_append:
  assumes "samples (load_data lw resize (Dir before) n) = Inr (Xb, yb)"
    and "samples (load_data lw resize (Dir after) n) = Inr (Xa, ya)"
  shows "samples (load_data lw resize (Dir (before @ after)) n) = Inr (Xb @ Xa, yb @ ya)"
proof -
  let ?empty = "\<lparr>data_X = [], data_y = [], printed = []\<rparr> :: 'a dataset"
  note split = load_loop_delta
    [of lw resize n "load_loop lw resize n ?empty (image_files lw before)" "image_files lw after"]
  show ?thesis
    using assms split
    by (simp add: samples_load_data_Dir image_files_def load_loop_append)
qed

lemma samples_load_data_single:
  assumes "endswith (lw f) [''.jpg'', ''.jpeg'', ''.png'']" and "label_of lw f = Some l"
    and "resize img n = Inr img'"
  shows "samples (load_data lw resize (Dir [(f, Decoded img)]) n) = Inr ([img'], [l])"
  using assms by (simp add: samples_load_data_Dir image_files_def process_file_def)

lemma samples_load_data_labelled:
  assumes "samples (load_data lw resize (Dir before) n) = Inr (Xb, yb)"
    and "samples (load_data lw resize (Dir after) n) = Inr (Xa, ya)"
    and "endswith (lw f) [''.jpg'', ''.jpeg'', ''.png'']" and "label_of lw f = Some l"
    and "resize img n = Inr img'"
  shows "samples (load_data lw resize (Dir (before @ (f, Decoded img) # after)) n) =
         Inr (Xb @ img' # Xa, yb @ l # ya)"
proof -
  have "samples (load_data lw resize (Dir [(f, Decoded img)]) n) = Inr ([img'], [l])"
    using assms(3-5) by (rule samples_load_data_single)
  from this assms(2)
  have "samples (load_data lw resize (Dir ([(f, Decoded img)] @ after)) n) =
      Inr ([img'] @ Xa, [l] @ ya)"
    by (rule samples_load_data_append)
  with assms(1)
  have "samples (load_data lw resize (Dir (before @ [(f, Decoded img)] @ after)) n) =
      Inr (Xb @ [img'] @ Xa, yb @ [l] @ ya)"
    by (rule samples_load_data_append)
  then show ?thesis by simp
qed

lemma samples_load_data_unlabelled:
  assumes "samples (load_data lw resize (Dir before) n) = Inr (Xb, yb)"
    and "samples (load_data lw resize (Dir after) n) = Inr (Xa, ya)"
    and "label_of lw f = None"
  shows "samples (load_data lw resize (Dir (before @ (f, c) # after)) n) =
         Inr (Xb @ Xa, yb @ ya)"
proof -
  have "samples (load_data lw resize (Dir (before @ (f, c) # after)) n) =
      samples (load_data lw resize (Dir (before @ after)) n)"
    by (simp add: samples_load_data_Dir image_files_def load_loop_append
          label_of_None_process_file [OF assms(3)])
  then show ?thesis
    using samples_load_data_append [OF assms(1,2)] by simp
qed

text \<open>
  C2. Take a directory listing, with the two lists \<open>load_data\<close> returns for the entries
  before a file and for the entries after it. If the file has a supported extension,
  decodes and resizes, and its lowercased name contains an idle class and no active class,
  \<open>load_data\<close> returns for the whole listing the lists of the entries before, then the
  resized image with label 0, then the lists of the entries after. With an active class
  and no idle class the label is 1; with both an idle and an active class it is 0, since
  the idle test comes first. A file whose lowercased name contains neither is left out:
  the lists are those of the entries before followed by those of the entries after,
  whatever the file holds. Lowercasing is Python's \<open>str.lower\<close>, whatever it does.
\<close>

theorem label_follows_vocabularies:
  assumes "samples (load_data lw resize (Dir before) n) = Inr (Xb, yb)"
    and "samples (load_data lw resize (Dir after) n) = Inr (Xa, ya)"
  shows
  "(endswith (lw f) [''.jpg'', ''.jpeg'', ''.png''] \<and> resize img n = Inr img' \<and>
    (\<exists>c\<in>set idle_classes. sublist c (lw f)) \<and>
    \<not> (\<exists>c\<in>set active_classes. sublist c (lw f)) \<longrightarrow>
      samples (load_data lw resize (Dir (before @ (f, Decoded img) # after)) n) =
        Inr (Xb @ img' # Xa, yb @ 0 # ya)) \<and>
   (endswith (lw f) [''.jpg'', ''.jpeg'', ''.png''] \<and> resize img n = Inr img' \<and>
    (\<exists>c\<in>set active_classes. sublist c (lw f)) \<and>
    \<not> (\<exists>c\<in>set idle_classes. sublist c (lw f)) \<longrightarrow>
      samples (load_data lw resize (Dir (before @ (f, Decoded img) # after)) n) =
        Inr (Xb @ img' # Xa, yb @ 1 # ya)) \<and>
   (endswith (lw f) [''.jpg'', ''.jpeg'', ''.png''] \<and> resize img n = Inr img' \<and>
    (\<exists>c\<in>set idle_classes. sublist c (lw f)) \<and>
    (\<exists>c\<in>set active_classes. sublist c (lw f)) \<longrightarrow>
      samples (load_data lw resize (Dir (before @ (f, Decoded img) # after)) n) =
        Inr (Xb @ img' # Xa, yb @ 0 # ya)) \<and>
   (\<not> (\<exists>c\<in>set idle_classes. sublist c (lw f)) \<and>
    \<not> (\<exists>c\<in>set active_classes. sublist c (lw f)) \<longrightarrow>
      samples (load_data lw resize (Dir (before @ (f, content) # after)) n) =
        Inr (Xb @ Xa, yb @ ya))"
proof (intro conjI impI)
  assume h: "endswith (lw f) [''.jpg'', ''.jpeg'', ''.png''] \<and> resize img n = Inr img' \<and>
    (\<exists>c\<in>set idle_classes. sublist c (lw f)) \<and>
    \<not> (\<exists>c\<in>set active_classes. sublist c (lw f))"
  then have "label_of lw f = Some 0" by (simp add: label_of_cases)
  with h show "samples (load_data lw resize (Dir (before @ (f, Decoded img) # after)) n) =
      Inr (Xb @ img' # Xa, yb @ 0 # ya)"
    using samples_load_data_labelled [OF assms] by blast
next
  assume h: "endswith (lw f) [''.jpg'', ''.jpeg'', ''.png''] \<and> resize img n = Inr img' \<and>
    (\<exists>c\<in>set active_classes. sublist c (lw f)) \<and>
    \<not> (\<exists>c\<in>set idle_classes. sublist c (lw f))"
  then have "label_of lw f = Some 1" by (simp add: label_of_cases)
  with h show "samples (load_data lw resize (Dir (before @ (f, Decoded img) # after)) n) =
      Inr (Xb @ img' # Xa, yb @ 1 # ya)"
    using samples_load_data_labelled [OF assms] by blast
next
  assume h: "endswith (lw f) [''.jpg'', ''.jpeg'', ''.png''] \<and> resize img n = Inr img' \<and>
    (\<exists>c\<in>set idle_classes. sublist c (lw f)) \<and>
    (\<exists>c\<in>set active_classes. sublist c (lw f))"
  then have "label_of lw f = Some 0" by (simp add: label_of_cases)
  with h show "samples (load_data lw resize (Dir (before @ (f, Decoded img) # after)) n) =
      Inr (Xb @ img' # Xa, yb @ 0 # ya)"
    using samples_load_data_labelled [OF assms] by blast
next
  assume "\<not> (\<exists>c\<in>set idle_classes. sublist c (lw f)) \<and>
    \<not> (\<exists>c\<in>set active_classes. sublist c (lw f))"
  then have "label_of lw f = None" by (simp add: label_of_cases)
  then show "samples (load_data lw resize (Dir (before @ (f, content) # after)) n) =
      Inr (Xb @ Xa, yb @ ya)"
    by (rule samples_load_data_unlabelled [OF assms])
qed

theorem label_follows_vocabularies_witness:
  "samples (load_data ascii_lower square_resize
      (Dir [(''running_02.jpg'', Decoded (300, 200)), (''Reading_01.JPG'', Decoded (480, 640)),
            (''notes.txt'', NoImage)]) 128) =
     Inr ([(128, 128), (128, 128)], [1, 0]) \<and>
   samples (load_data ascii_lower square_resize
      (Dir [(''Reading_01.JPG'', Decoded (480, 640)), (''running_02.jpg'', Decoded (300, 200)),
            (''notes.txt'', NoImage)]) 128) =
     Inr ([(128, 128), (128, 128)], [0, 1]) \<and>
   samples (load_data ascii_lower square_resize
      (Dir [(''running_while_reading.png'', Decoded (10, 10))]) 128) =
     Inr ([(128, 128)], [0]) \<and>
   samples (load_data ascii_lower square_resize example_dir 128) =
     Inr ([(128, 128), (128, 128)], [0, 1]) \<and>
   samples (load_data kelvin_lower square_resize
      (Dir [(kelvin_name, Decoded (10, 10))]) 128) =
     Inr ([(128, 128)], [1])"
proof -
  have rs: "square_resize img 128 = Inr (128, 128)" for img
    by (simp add: square_resize_def)
  have nil: "samples (load_data lw square_resize (Dir []) 128) = Inr ([], [])" for lw
    by (simp add: samples_def load_data_def image_files_def)
  have run: "samples (load_data ascii_lower square_resize
      (Dir [(''running_02.jpg'', Decoded (300, 200))]) 128) = Inr ([(128, 128)], [1])"
    by code_simp
  have rd: "samples (load_data ascii_lower square_resize
      (Dir [(''Reading_01.JPG'', Decoded (480, 640))]) 128) = Inr ([(128, 128)], [0])"
    by code_simp
  have rr: "samples (load_data ascii_lower square_resize
      (Dir [(''reading_01.jpg'', Decoded (480, 640)), (''running_02.jpg'', Decoded (300, 200))])
      128) = Inr ([(128, 128), (128, 128)], [0, 1])"
    by code_simp
  have plain: "samples (load_data ascii_lower square_resize (Dir [(''notes.txt'', NoImage)]) 128) =
      Inr ([], [])"
    by code_simp
  have idle: "endswith (ascii_lower ''Reading_01.JPG'') [''.jpg'', ''.jpeg'', ''.png''] \<and>
      square_resize (480, 640) 128 = Inr (128, 128) \<and>
      (\<exists>c\<in>set idle_classes. sublist c (ascii_lower ''Reading_01.JPG'')) \<and>
      \<not> (\<exists>c\<in>set active_classes. sublist c (ascii_lower ''Reading_01.JPG''))"
    by code_simp
  have active: "endswith (ascii_lower ''running_02.jpg'') [''.jpg'', ''.jpeg'', ''.png''] \<and>
      square_resize (300, 200) 128 = Inr (128, 128) \<and>
      (\<exists>c\<in>set active_classes. sublist c (ascii_lower ''running_02.jpg'')) \<and>
      \<not> (\<exists>c\<in>set idle_classes. sublist c (ascii_lower ''running_02.jpg''))"
    by code_simp
  have both: "endswith (ascii_lower ''running_while_reading.png'') [''.jpg'', ''.jpeg'', ''.png''] \<and>
      square_resize (10, 10) 128 = Inr (128, 128) \<and>
      (\<exists>c\<in>set idle_classes. sublist c (ascii_lower ''running_while_reading.png'')) \<and>
      (\<exists>c\<in>set active_classes. sublist c (ascii_lower ''running_while_reading.png''))"
    by code_simp
  have neither: "\<not> (\<exists>c\<in>set idle_classes. sublist c (ascii_lower ''unknown_03.jpg'')) \<and>
      \<not> (\<exists>c\<in>set active_classes. sublist c (ascii_lower ''unknown_03.jpg''))"
    by code_simp
  have kelvin: "endswith (kelvin_lower kelvin_name) [''.jpg'', ''.jpeg'', ''.png''] \<and>
      square_resize (10, 10) 128 = Inr (128, 128) \<and>
      (\<exists>c\<in>set active_classes. sublist c (kelvin_lower kelvin_name)) \<and>
      \<not> (\<exists>c\<in>set idle_classes. sublist c (kelvin_lower kelvin_name))"
    by code_simp
  have a: "samples (load_data ascii_lower square_resize
      (Dir ([(''running_02.jpg'', Decoded (300, 200))] @ (''Reading_01.JPG'', Decoded (480, 640))
         # [(''notes.txt'', NoImage)])) 128) =
      Inr ([(128, 128)] @ (128, 128) # [], [1] @ 0 # [])"
    using label_follows_vocabularies [OF run plain, where f = "''Reading_01.JPG''"
        and img = "(480, 640)" and img' = "(128, 128)", THEN conjunct1] idle
    by simp
  have b: "samples (load_data ascii_lower square_resize
      (Dir ([(''Reading_01.JPG'', Decoded (480, 640))] @ (''running_02.jpg'', Decoded (300, 200))
         # [(''notes.txt'', NoImage)])) 128) =
      Inr ([(128, 128)] @ (128, 128) # [], [0] @ 1 # [])"
    using label_follows_vocabularies [OF rd plain, where f = "''running_02.jpg''"
        and img = "(300, 200)" and img' = "(128, 128)", THEN conjunct2, THEN conjunct1] active
    by simp
  have c: "samples (load_data ascii_lower square_resize
      (Dir ([] @ (''running_while_reading.png'', Decoded (10, 10)) # [])) 128) =
      Inr ([] @ (128, 128) # [], [] @ 0 # [])"
    using label_follows_vocabularies [OF nil nil, where f = "''running_while_reading.png''"
        and img = "(10, 10)" and img' = "(128, 128)",
        THEN conjunct2, THEN conjunct2, THEN conjunct1] both
    by simp
  have d: "samples (load_data ascii_lower square_resize
      (Dir ([(''reading_01.jpg'', Decoded (480, 640)), (''running_02.jpg'', Decoded (300, 200))]
         @ (''unknown_03.jpg'', Decoded (64, 64)) # [])) 128) =
      Inr ([(128, 128), (128, 128)] @ [], [0, 1] @ [])"
    using label_follows_vocabularies [OF rr nil, where f = "''unknown_03.jpg''"
        and content = "Decoded (64, 64)",
        THEN conjunct2, THEN conjunct2, THEN conjunct2] neither
    by simp
  have e: "samples (load_data kelvin_lower square_resize
      (Dir ([] @ (kelvin_name, Decoded (10, 10)) # [])) 128) =
      Inr ([] @ (128, 128) # [], [] @ 1 # [])"
    using label_follows_vocabularies [OF nil nil, where f = kelvin_name
        and img = "(10, 10)" and img' = "(128, 128)", THEN conjunct2, THEN conjunct1] kelvin
    by simp
  from a b c d e show ?thesis
    by (simp add: example_dir_def)
qed


lemma load_data_Dir_returns:
  "\<exists>d. load_data lw resize (Dir entries) n = Inr d"
  by (simp add: load_data_def Let_def)

text \<open>
  C6. On a missing directory, and on a directory without a file of a supported extension,
  \<open>load_data\<close> prints its report and returns two empty lists; on a directory it never
  raises. A file whose decoding returns no image or raises leaves the two lists as they
  are, and the output of \<open>load_data\<close> is the same as without that file, whatever comes
  before and after it.
\<close>

theorem load_data_non_fatal:
  "load_data lw resize Missing n =
     Inr \<lparr>data_X = [], data_y = [], printed = [Dataset_directory_not_found]\<rparr> \<and>
   (image_files lw entries = [] \<longrightarrow>
      load_data lw resize (Dir entries) n =
        Inr \<lparr>data_X = [], data_y = [], printed = [No_image_files_found]\<rparr>) \<and>
   (\<exists>d. load_data lw resize (Dir entries) n = Inr d) \<and>
   (content = NoImage \<or> content = ImreadError \<longrightarrow>
      data_X (process_file lw resize n d (f, content)) = data_X d \<and>
      data_y (process_file lw resize n d (f, content)) = data_y d \<and>
      samples (load_data lw resize (Dir (before @ (f, content) # after)) n) =
        samples (load_data lw resize (Dir (before @ after)) n))"
proof (intro conjI impI)
  show "load_data lw resize Missing n =
      Inr \<lparr>data_X = [], data_y = [], printed = [Dataset_directory_not_found]\<rparr>"
    by (simp add: load_data_def)
  show "\<exists>d. load_data lw resize (Dir entries) n = Inr d"
    by (rule load_data_Dir_returns)
next
  assume "image_files lw entries = []"
  then show "load_data lw resize (Dir entries) n =
      Inr \<lparr>data_X = [], data_y = [], printed = [No_image_files_found]\<rparr>"
    by (simp add: load_data_def)
next
  assume bad: "content = NoImage \<or> content = ImreadError"
  show "data_X (process_file lw resize n d (f, content)) = data_X d"
    using process_file_undecodable [OF bad] by blast
  show "data_y (process_file lw resize n d (f, content)) = data_y d"
    using process_file_undecodable [OF bad] by blast
  show "samples (load_data lw resize (Dir (before @ (f, content) # after)) n) =
      samples (load_data lw resize (Dir (before @ after)) n)"
    by (rule skip_undecodable [OF bad])
qed

theorem load_data_non_fatal_witness:
  "load_data ascii_lower square_resize (Dir [(''notes.txt'', NoImage), (''reading'', Decoded (2, 2))]) 128 =
     Inr \<lparr>data_X = [], data_y = [], printed = [No_image_files_found]\<rparr> \<and>
   samples (load_data ascii_lower square_resize
      (Dir [(''reading_01.jpg'', ImreadError), (''running_02.jpg'', Decoded (300, 200))]) 128) =
     Inr ([(128, 128)], [1]) \<and>
   samples (load_data ascii_lower square_resize
      (Dir [(''sleeping_07.png'', NoImage), (''running_02.jpg'', Decoded (300, 200))]) 128) =
     Inr ([(128, 128)], [1])"
proof -
  have none: "image_files ascii_lower [(''notes.txt'', NoImage), (''reading'', Decoded (2 :: int, 2 :: int))] = []"
    by code_simp
  have rest: "samples (load_data ascii_lower square_resize (Dir [(''running_02.jpg'', Decoded (300, 200))]) 128) =
      Inr ([(128, 128)], [1])"
    by code_simp
  have a: "load_data ascii_lower square_resize (Dir [(''notes.txt'', NoImage), (''reading'', Decoded (2, 2))]) 128 =
      Inr \<lparr>data_X = [], data_y = [], printed = [No_image_files_found]\<rparr>"
    using load_data_non_fatal [where entries = "[(''notes.txt'', NoImage), (''reading'', Decoded (2, 2))]"
        and lw = ascii_lower and resize = square_resize and n = 128, THEN conjunct2, THEN conjunct1] none
    by simp
  have b: "samples (load_data ascii_lower square_resize
      (Dir ([] @ (''reading_01.jpg'', ImreadError) # [(''running_02.jpg'', Decoded (300, 200))])) 128) =
      samples (load_data ascii_lower square_resize (Dir ([] @ [(''running_02.jpg'', Decoded (300, 200))])) 128)"
    using load_data_non_fatal [where content = ImreadError and lw = ascii_lower and resize = square_resize and n = 128
        and f = "''reading_01.jpg''" and before = "[]"
        and after = "[(''running_02.jpg'', Decoded (300, 200))]",
        THEN conjunct2, THEN conjunct2, THEN conjunct2]
    by simp
  have c: "samples (load_data ascii_lower square_resize
      (Dir ([] @ (''sleeping_07.png'', NoImage) # [(''running_02.jpg'', Decoded (300, 200))])) 128) =
      samples (load_data ascii_lower square_resize (Dir ([] @ [(''running_02.jpg'', Decoded (300, 200))])) 128)"
    using load_data_non_fatal [where content = NoImage and lw = ascii_lower and resize = square_resize and n = 128
        and f = "''sleeping_07.png''" and before = "[]"
        and after = "[(''running_02.jpg'', Decoded (300, 200))]",
        THEN conjunct2, THEN conjunct2, THEN conjunct2]
    by simp
  from a b c rest show ?thesis by simp
qed




section \<open>Properties of the live page\<close>

lemma ok_count_append:
  "ok_count (xs @ ys) = ok_count xs + ok_count ys"
  by (simp add: ok_count_def)

lemma ok_count_single:
  "ok_count [(f, r)] = (if isl r then 0 else 1)"
  by (simp add: ok_count_def)

lemma live_update_frame_closed:
  "\<not> cap_opened s \<Longrightarrow> live_update_frame e r s = Inr s"
  by (simp add: live_update_frame_def)

lemma live_update_frame_no_frame:
  "live_update_frame e None s = Inr s"
  by (simp add: live_update_frame_def)


lemma live_update_frame_shown:
  "cap_opened s \<Longrightarrow> cvtColor e f = Inr rgb \<Longrightarrow>
   live_update_frame e (Some f) s =
     Inr ((live_predict_block e f s)
            \<lparr>video_label := Pixmap rgb, rendered := rendered (live_predict_block e f s) @ [f]\<rparr>)"
  by (simp add: live_update_frame_def Let_def)

lemma live_predict_block_unloaded:
  "\<not> loaded e \<Longrightarrow> live_predict_block e f s = s"
  by (simp add: live_predict_block_def)

lemma live_predict_block_active:
  "loaded e \<Longrightarrow> predict e f = Inr 1 \<Longrightarrow>
   live_predict_block e f s =
     s\<lparr>pred_label := Active_worker, alert_label := Status_normal_worker_active,
       active_count := active_count s + 1,
       active_stats := active_count s + 1, idle_stats := idle_count s,
       classified := classified s @ [(f, Inr 1)]\<rparr>"
  by (simp add: live_predict_block_def)

lemma live_predict_block_idle:
  "loaded e \<Longrightarrow> predict e f = Inr p \<Longrightarrow> p \<noteq> 1 \<Longrightarrow>
   live_predict_block e f s =
     s\<lparr>pred_label := Idle_worker_detected, alert_label := Alert_worker_idle,
       idle_count := idle_count s + 1,
       active_stats := active_count s, idle_stats := idle_count s + 1,
       classified := classified s @ [(f, Inr p)]\<rparr>"
  by (simp add: live_predict_block_def)

lemma live_predict_block_error:
  "loaded e \<Longrightarrow> predict e f = Inl err \<Longrightarrow>
   live_predict_block e f s =
     s\<lparr>pred_label := Prediction_error, classified := classified s @ [(f, Inl err)]\<rparr>"
  by (simp add: live_predict_block_def)

lemma live_predict_block_tally:
  "tally (live_predict_block e f s) = tally s"
proof (cases "loaded e")
  case False
  then show ?thesis by (simp add: live_predict_block_unloaded)
next
  case True
  show ?thesis
  proof (cases "predict e f")
    case (Inl err)
    with True show ?thesis
      by (simp add: live_predict_block_error tally_def ok_count_append ok_count_single)
  next
    case (Inr p)
    with True show ?thesis
      by (cases "p = 1")
        (simp_all add: live_predict_block_active live_predict_block_idle tally_def
          ok_count_append ok_count_single)
  qed
qed

lemma live_predict_block_records:
  "cap_opened (live_predict_block e f s) = cap_opened s"
  "rendered (live_predict_block e f s) = rendered s"
  "classified (live_predict_block e f s) =
     classified s @ (if loaded e then [(f, predict e f)] else [])"
  by (simp_all add: live_predict_block_def Let_def split: sum.splits)

text \<open>
  The cases of a step that returns: the camera is closed or gave no frame, and the state
  is as before; or a frame was read and shown after the prediction block.
\<close>

lemma live_update_frame_returns:
  assumes "live_update_frame e r s = Inr s'"
  obtains "s' = s" "\<not> cap_opened s \<or> r = None"
  | f rgb where "cap_opened s" "r = Some f" "cvtColor e f = Inr rgb"
      "s' = (live_predict_block e f s)
         \<lparr>video_label := Pixmap rgb, rendered := rendered (live_predict_block e f s) @ [f]\<rparr>"
  using assms
  by (auto simp add: live_update_frame_def Let_def split: if_splits option.splits sum.splits)

lemma live_update_frame_cap_opened:
  assumes "live_update_frame e r s = Inr s'"
  shows "cap_opened s' = cap_opened s"
  using assms
  by (rule live_update_frame_returns) (simp_all add: live_predict_block_records)

lemma live_update_frame_tally:
  assumes "live_update_frame e r s = Inr s'"
  shows "tally s' = tally s"
  using assms
proof (rule live_update_frame_returns)
  fix f rgb
  assume "s' = (live_predict_block e f s)
      \<lparr>video_label := Pixmap rgb, rendered := rendered (live_predict_block e f s) @ [f]\<rparr>"
  then have "tally s' = tally (live_predict_block e f s)"
    by (simp add: tally_def)
  then show ?thesis by (simp add: live_predict_block_tally)
qed simp

lemma live_update_frame_rendered:
  assumes "live_update_frame e r s = Inr s'" and "cap_opened s"
  shows "rendered s' = rendered s @ (case r of None \<Rightarrow> [] | Some f \<Rightarrow> [f])"
  using assms(1)
  by (rule live_update_frame_returns) (use assms(2) in \<open>auto simp add: live_predict_block_records\<close>)

lemma live_update_frame_classified:
  assumes "live_update_frame e r s = Inr s'" and "loaded e" and "cap_opened s"
  shows "classified s' = classified s @ (case r of None \<Rightarrow> [] | Some f \<Rightarrow> [(f, predict e f)])"
  using assms(1)
  by (rule live_update_frame_returns)
    (use assms(2,3) in \<open>auto simp add: live_predict_block_records\<close>)

lemma live_update_frame_unloaded_keeps:
  assumes "live_update_frame e r s = Inr s'" and "\<not> loaded e"
  shows "active_count s' = active_count s \<and> idle_count s' = idle_count s \<and>
         active_stats s' = active_stats s \<and> idle_stats s' = idle_stats s \<and>
         pred_label s' = pred_label s \<and> alert_label s' = alert_label s \<and>
         classified s' = classified s"
  using assms(1)
  by (rule live_update_frame_returns)
    (use assms(2) in \<open>simp_all add: live_predict_block_unloaded\<close>)

lemma frames_of_Cons:
  "frames_of (r # reads) = (case r of None \<Rightarrow> [] | Some f \<Rightarrow> [f]) @ frames_of reads"
  by (simp add: frames_of_def)

lemma live_run_Cons_returns:
  assumes "live_run e s (r # reads) = Inr s'"
  obtains s1 where "live_update_frame e r s = Inr s1" "live_run e s1 reads = Inr s'"
  using assms by (auto split: sum.splits)

lemma live_run_tally:
  "live_run e s reads = Inr s' \<Longrightarrow> tally s' = tally s"
proof (induction reads arbitrary: s)
  case Nil
  then show ?case by simp
next
  case (Cons r reads)
  from Cons.prems obtain s1 where s1: "live_update_frame e r s = Inr s1"
      "live_run e s1 reads = Inr s'"
    by (rule live_run_Cons_returns)
  from Cons.IH [OF s1(2)] live_update_frame_tally [OF s1(1)] show ?case by simp
qed

lemma live_run_cap_opened:
  "live_run e s reads = Inr s' \<Longrightarrow> cap_opened s' = cap_opened s"
proof (induction reads arbitrary: s)
  case Nil
  then show ?case by simp
next
  case (Cons r reads)
  from Cons.prems obtain s1 where s1: "live_update_frame e r s = Inr s1"
      "live_run e s1 reads = Inr s'"
    by (rule live_run_Cons_returns)
  from Cons.IH [OF s1(2)] live_update_frame_cap_opened [OF s1(1)] show ?case by simp
qed

lemma live_run_rendered:
  "live_run e s reads = Inr s' \<Longrightarrow> cap_opened s \<Longrightarrow>
   rendered s' = rendered s @ frames_of reads"
proof (induction reads arbitrary: s)
  case Nil
  then show ?case by (simp add: frames_of_def)
next
  case (Cons r reads)
  from Cons.prems(1) obtain s1 where s1: "live_update_frame e r s = Inr s1"
      "live_run e s1 reads = Inr s'"
    by (rule live_run_Cons_returns)
  have "cap_opened s1"
    using live_update_frame_cap_opened [OF s1(1)] Cons.prems(2) by simp
  from Cons.IH [OF s1(2) this] live_update_frame_rendered [OF s1(1) Cons.prems(2)]
  show ?case by (simp add: frames_of_Cons)
qed

lemma live_run_classified:
  "live_run e s reads = Inr s' \<Longrightarrow> loaded e \<Longrightarrow> cap_opened s \<Longrightarrow>
   classified s' = classified s @ map (\<lambda>f. (f, predict e f)) (frames_of reads)"
proof (induction reads arbitrary: s)
  case Nil
  then show ?case by (simp add: frames_of_def)
next
  case (Cons r reads)
  from Cons.prems(1) obtain s1 where s1: "live_update_frame e r s = Inr s1"
      "live_run e s1 reads = Inr s'"
    by (rule live_run_Cons_returns)
  have "cap_opened s1"
    using live_update_frame_cap_opened [OF s1(1)] Cons.prems(3) by simp
  from Cons.IH [OF s1(2) Cons.prems(2) this]
    live_update_frame_classified [OF s1(1) Cons.prems(2,3)]
  show ?case by (simp add: frames_of_Cons split: option.splits)
qed

lemma live_run_unloaded_keeps:
  assumes "\<not> loaded e"
  shows "live_run e s reads = Inr s' \<Longrightarrow>
         active_count s' = active_count s \<and> idle_count s' = idle_count s \<and>
         active_stats s' = active_stats s \<and> idle_stats s' = idle_stats s \<and>
         pred_label s' = pred_label s \<and> alert_label s' = alert_label s \<and>
         classified s' = classified s"
proof (induction reads arbitrary: s)
  case Nil
  then show ?case by simp
next
  case (Cons r reads)
  from Cons.prems obtain s1 where s1: "live_update_frame e r s = Inr s1"
      "live_run e s1 reads = Inr s'"
    by (rule live_run_Cons_returns)
  from Cons.IH [OF s1(2)] live_update_frame_unloaded_keeps [OF s1(1) assms]
  show ?case by simp
qed

text \<open>A run returns when every frame it reads can be shown.\<close>

lemma live_run_returns:
  "\<forall>f\<in>set (frames_of reads). \<not> isl (cvtColor e f) \<Longrightarrow> \<exists>s'. live_run e s reads = Inr s'"
proof (induction reads arbitrary: s)
  case Nil
  show ?case by simp
next
  case (Cons r reads)
  have "\<exists>s1. live_update_frame e r s = Inr s1"
  proof (cases r)
    case None
    then show ?thesis by (simp add: live_update_frame_no_frame)
  next
    case (Some f)
    with Cons.prems have "\<not> isl (cvtColor e f)"
      by (simp add: frames_of_Cons)
    then obtain rgb where "cvtColor e f = Inr rgb"
      by (cases "cvtColor e f") simp_all
    with Some show ?thesis
      by (cases "cap_opened s") (simp_all add: live_update_frame_closed live_update_frame_shown)
  qed
  then obtain s1 where s1: "live_update_frame e r s = Inr s1" ..
  from Cons.prems have "\<forall>f\<in>set (frames_of reads). \<not> isl (cvtColor e f)"
    by (simp add: frames_of_Cons)
  from Cons.IH [OF this, of s1] s1 show ?case by simp
qed

lemma load_models_failed:
  "isl joblib_load \<or> isl mobilenet \<Longrightarrow>
   clf (load_models p cvt joblib_load mobilenet) = None \<and>
   feature_extractor (load_models p cvt joblib_load mobilenet) = None \<and>
   \<not> loaded (load_models p cvt joblib_load mobilenet)"
  by (auto simp add: load_models_def loaded_def split: sum.splits)



section \<open>Properties of the MP4 page\<close>

lemma tally_updates [simp]:
  "tally (s\<lparr>cap := a\<rparr>) = tally s"
  "tally (s\<lparr>current_frame := j\<rparr>) = tally s"
  "tally (s\<lparr>total_frames := j\<rparr>) = tally s"
  "tally (s\<lparr>fps := q\<rparr>) = tally s"
  "tally (s\<lparr>timer := t\<rparr>) = tally s"
  "tally (s\<lparr>is_playing := b\<rparr>) = tally s"
  "tally (s\<lparr>slider_value := j\<rparr>) = tally s"
  "tally (s\<lparr>slider_minimum := j\<rparr>) = tally s"
  "tally (s\<lparr>slider_maximum := j\<rparr>) = tally s"
  "tally (s\<lparr>alert_label := al\<rparr>) = tally s"
  by (simp_all add: tally_def)

lemma display_frame_returns:
  assumes "display_frame e f s = Inr s'"
  obtains rgb where "cvtColor e f = Inr rgb"
    "s' = s\<lparr>video_label := Pixmap rgb, rendered := rendered s @ [f]\<rparr>"
proof (cases "cvtColor e f")
  case (Inl err)
  with assms show ?thesis by (simp add: display_frame_def)
next
  case (Inr rgb)
  with assms have "s' = s\<lparr>video_label := Pixmap rgb, rendered := rendered s @ [f]\<rparr>"
    by (simp add: display_frame_def)
  with Inr show ?thesis by (rule that)
qed

lemma display_frame_shown:
  "cvtColor e f = Inr rgb \<Longrightarrow>
   display_frame e f s = Inr (s\<lparr>video_label := Pixmap rgb, rendered := rendered s @ [f]\<rparr>)"
  by (simp add: display_frame_def)

lemma display_frame_tally:
  assumes "display_frame e f s = Inr s'"
  shows "tally s' = tally s"
  using assms
proof (rule display_frame_returns)
  fix rgb
  assume "s' = s\<lparr>video_label := Pixmap rgb, rendered := rendered s @ [f]\<rparr>"
  then show ?thesis by (simp add: tally_def)
qed

lemma analyze_frame_unloaded:
  "\<not> loaded e \<Longrightarrow> analyze_frame e f s = s"
  by (simp add: analyze_frame_def)

lemma analyze_frame_active:
  "loaded e \<Longrightarrow> predict e f = Inr 1 \<Longrightarrow>
   analyze_frame e f s =
     s\<lparr>pred_label := Active_worker, active_count := active_count s + 1,
       active_stats := active_count s + 1, idle_stats := idle_count s,
       classified := classified s @ [(f, Inr 1)]\<rparr>"
  by (simp add: analyze_frame_def)

lemma analyze_frame_idle:
  "loaded e \<Longrightarrow> predict e f = Inr p \<Longrightarrow> p \<noteq> 1 \<Longrightarrow>
   analyze_frame e f s =
     s\<lparr>pred_label := Idle_worker_detected, idle_count := idle_count s + 1,
       active_stats := active_count s, idle_stats := idle_count s + 1,
       classified := classified s @ [(f, Inr p)]\<rparr>"
  by (simp add: analyze_frame_def)

lemma analyze_frame_error:
  "loaded e \<Longrightarrow> predict e f = Inl err \<Longrightarrow>
   analyze_frame e f s =
     s\<lparr>pred_label := Prediction_error, classified := classified s @ [(f, Inl err)]\<rparr>"
  by (simp add: analyze_frame_def)

lemma analyze_frame_tally:
  "tally (analyze_frame e f s) = tally s"
proof (cases "loaded e")
  case False
  then show ?thesis by (simp add: analyze_frame_unloaded)
next
  case True
  show ?thesis
  proof (cases "predict e f")
    case (Inl err)
    with True show ?thesis
      by (simp add: analyze_frame_error tally_def ok_count_append ok_count_single)
  next
    case (Inr p)
    with True show ?thesis
      by (cases "p = 1")
        (simp_all add: analyze_frame_active analyze_frame_idle tally_def
          ok_count_append ok_count_single)
  qed
qed

text \<open>The cases of a seek that returns.\<close>

lemma seek_frame_returns:
  assumes "seek_frame e j s = Inr s'"
  obtains "s' = s"
  | c where "cap s = Some c" "s' = s\<lparr>cap := Some (c\<lparr>pos := j\<rparr>), current_frame := j\<rparr>"
  | c f c2 s2 where "cap s = Some c"
      "display_frame e f (s\<lparr>current_frame := j, cap := Some c2\<rparr>) = Inr s2"
      "s' = analyze_frame e f s2"
proof (cases "cap s")
  case None
  with assms have "s' = s" by (simp add: seek_frame_def)
  then show ?thesis by (rule that(1))
next
  case (Some c)
  show ?thesis
  proof (cases "is_opened c")
    case False
    with assms Some have "s' = s" by (simp add: seek_frame_def)
    then show ?thesis by (rule that(1))
  next
    case True
    show ?thesis
    proof (cases "read (c\<lparr>pos := j\<rparr>)")
      case None
      with assms Some True have "s' = s\<lparr>cap := Some (c\<lparr>pos := j\<rparr>), current_frame := j\<rparr>"
        by (simp add: seek_frame_def)
      with Some show ?thesis by (rule that(2))
    next
      case (Some a)
      obtain f c2 where a: "a = (f, c2)" by (cases a)
      let ?t = "s\<lparr>current_frame := j, cap := Some c2\<rparr>"
      from assms \<open>cap s = Some c\<close> True Some a
      have eq: "(case display_frame e f ?t of Inl err \<Rightarrow> Inl err
                 | Inr s2 \<Rightarrow> Inr (analyze_frame e f s2)) = Inr s'"
        by (simp add: seek_frame_def)
      show ?thesis
      proof (cases "display_frame e f ?t")
        case (Inl err)
        with eq show ?thesis by simp
      next
        case (Inr s2)
        with eq have "s' = analyze_frame e f s2" by simp
        with \<open>cap s = Some c\<close> Inr show ?thesis by (rule that(3))
      qed
    qed
  qed
qed

lemma seek_frame_tally:
  assumes "seek_frame e j s = Inr s'"
  shows "tally s' = tally s"
  using assms
proof (rule seek_frame_returns)
  assume "s' = s"
  then show ?thesis by simp
next
  fix c
  assume "s' = s\<lparr>cap := Some (c\<lparr>pos := j\<rparr>), current_frame := j\<rparr>"
  then show ?thesis by simp
next
  fix c f c2 s2
  assume s2: "display_frame e f (s\<lparr>current_frame := j, cap := Some c2\<rparr>) = Inr s2"
    and "s' = analyze_frame e f s2"
  then have "tally s' = tally s2" by (simp add: analyze_frame_tally)
  also have "\<dots> = tally s" using display_frame_tally [OF s2] by simp
  finally show ?thesis .
qed

lemma slider_setValue_returns:
  assumes "slider_setValue e v s = Inr s'"
  obtains "s' = s" | w where "seek_frame e w (s\<lparr>slider_value := w\<rparr>) = Inr s'"
proof (cases "max (slider_minimum s) (min (slider_maximum s) v) = slider_value s")
  case True
  with assms have "s' = s" by (simp add: slider_setValue_def)
  then show ?thesis by (rule that(1))
next
  case False
  with assms
  have "seek_frame e (max (slider_minimum s) (min (slider_maximum s) v))
      (s\<lparr>slider_value := max (slider_minimum s) (min (slider_maximum s) v)\<rparr>) = Inr s'"
    by (simp add: slider_setValue_def Let_def)
  then show ?thesis by (rule that(2))
qed

lemma slider_setValue_tally:
  assumes "slider_setValue e v s = Inr s'"
  shows "tally s' = tally s"
  using assms
proof (rule slider_setValue_returns)
  assume "s' = s"
  then show ?thesis by simp
next
  fix w
  assume "seek_frame e w (s\<lparr>slider_value := w\<rparr>) = Inr s'"
  from seek_frame_tally [OF this] show ?thesis by simp
qed

lemma slider_setMaximum_returns:
  assumes "slider_setMaximum e m s = Inr s'"
  obtains "s' = s"
  | mn where "slider_setValue e (slider_value s) (s\<lparr>slider_minimum := mn, slider_maximum := m\<rparr>) = Inr s'"
proof (cases "min (slider_minimum s) m = slider_minimum s \<and> m = slider_maximum s")
  case True
  with assms have "s' = s" by (auto simp add: slider_setMaximum_def Let_def)
  then show ?thesis by (rule that(1))
next
  case False
  with assms
  have "slider_setValue e (slider_value s)
      (s\<lparr>slider_minimum := min (slider_minimum s) m, slider_maximum := m\<rparr>) = Inr s'"
    by (simp add: slider_setMaximum_def Let_def)
  then show ?thesis by (rule that(2))
qed

lemma slider_setMaximum_tally:
  assumes "slider_setMaximum e m s = Inr s'"
  shows "tally s' = tally s"
  using assms
proof (rule slider_setMaximum_returns)
  assume "s' = s"
  then show ?thesis by simp
next
  fix mn
  assume "slider_setValue e (slider_value s) (s\<lparr>slider_minimum := mn, slider_maximum := m\<rparr>) = Inr s'"
  from slider_setValue_tally [OF this] show ?thesis by simp
qed

lemma load_video_returns:
  assumes "load_video e c s = Inr s'"
  obtains "s' = s\<lparr>cap := Some c\<rparr>"
  | s2 where
      "slider_setMaximum e (prop_frame_count c - 1)
         (s\<lparr>cap := Some c, total_frames := prop_frame_count c, fps := prop_fps c\<rparr>) = Inr s2"
      "s' = s2\<lparr>alert_label := Video_loaded_ready_to_play\<rparr>"
  | s2 f c3 s3 where
      "slider_setMaximum e (prop_frame_count c - 1)
         (s\<lparr>cap := Some c, total_frames := prop_frame_count c, fps := prop_fps c\<rparr>) = Inr s2"
      "display_frame e f (s2\<lparr>cap := Some c3\<rparr>) = Inr s3"
      "s' = s3\<lparr>cap := Some (c3\<lparr>pos := 0\<rparr>), alert_label := Video_loaded_ready_to_play\<rparr>"
proof (cases "is_opened c")
  case False
  with assms have "s' = s\<lparr>cap := Some c\<rparr>" by (simp add: load_video_def)
  then show ?thesis by (rule that(1))
next
  case True
  let ?s1 = "s\<lparr>cap := Some c, total_frames := prop_frame_count c, fps := prop_fps c\<rparr>"
  from assms True
  have eq: "(case slider_setMaximum e (prop_frame_count c - 1) ?s1 of
               Inl err \<Rightarrow> Inl err
             | Inr s2 \<Rightarrow>
                 (case cap s2 of
                    None \<Rightarrow> Inr (s2\<lparr>alert_label := Video_loaded_ready_to_play\<rparr>)
                  | Some c2 \<Rightarrow>
                      (case read c2 of
                         None \<Rightarrow> Inr (s2\<lparr>alert_label := Video_loaded_ready_to_play\<rparr>)
                       | Some (frame, c3) \<Rightarrow>
                           (case display_frame e frame (s2\<lparr>cap := Some c3\<rparr>) of
                              Inl err \<Rightarrow> Inl err
                            | Inr s3 \<Rightarrow>
                                Inr (s3\<lparr>cap := Some (c3\<lparr>pos := 0\<rparr>),
                                        alert_label := Video_loaded_ready_to_play\<rparr>))))) = Inr s'"
    by (simp add: load_video_def Let_def)
  show ?thesis
  proof (cases "slider_setMaximum e (prop_frame_count c - 1) ?s1")
    case (Inl err)
    with eq show ?thesis by simp
  next
    case s2: (Inr s2)
    show ?thesis
    proof (cases "cap s2")
      case None
      with eq s2 have "s' = s2\<lparr>alert_label := Video_loaded_ready_to_play\<rparr>" by simp
      with s2 show ?thesis by (rule that(2))
    next
      case (Some c2)
      show ?thesis
      proof (cases "read c2")
        case None
        with eq s2 Some have "s' = s2\<lparr>alert_label := Video_loaded_ready_to_play\<rparr>" by simp
        with s2 show ?thesis by (rule that(2))
      next
        case rd: (Some a)
        obtain f c3 where a: "a = (f, c3)" by (cases a)
        show ?thesis
        proof (cases "display_frame e f (s2\<lparr>cap := Some c3\<rparr>)")
          case (Inl err)
          with eq s2 Some rd a show ?thesis by simp
        next
          case s3: (Inr s3)
          with eq s2 Some rd a
          have "s' = s3\<lparr>cap := Some (c3\<lparr>pos := 0\<rparr>),
              alert_label := Video_loaded_ready_to_play\<rparr>"
            by simp
          with s2 s3 show ?thesis by (rule that(3))
        qed
      qed
    qed
  qed
qed

lemma load_video_tally:
  assumes "load_video e c s = Inr s'"
  shows "tally s' = tally s"
  using assms
proof (rule load_video_returns)
  assume "s' = s\<lparr>cap := Some c\<rparr>"
  then show ?thesis by simp
next
  fix s2
  assume "slider_setMaximum e (prop_frame_count c - 1)
      (s\<lparr>cap := Some c, total_frames := prop_frame_count c, fps := prop_fps c\<rparr>) = Inr s2"
    and "s' = s2\<lparr>alert_label := Video_loaded_ready_to_play\<rparr>"
  then show ?thesis
    using slider_setMaximum_tally by fastforce
next
  fix s2 f c3 s3
  assume s2: "slider_setMaximum e (prop_frame_count c - 1)
      (s\<lparr>cap := Some c, total_frames := prop_frame_count c, fps := prop_fps c\<rparr>) = Inr s2"
    and s3: "display_frame e f (s2\<lparr>cap := Some c3\<rparr>) = Inr s3"
    and s': "s' = s3\<lparr>cap := Some (c3\<lparr>pos := 0\<rparr>), alert_label := Video_loaded_ready_to_play\<rparr>"
  from s' have "tally s' = tally s3" by simp
  also have "\<dots> = tally s2" using display_frame_tally [OF s3] by simp
  also have "\<dots> = tally s" using slider_setMaximum_tally [OF s2] by simp
  finally show ?thesis .
qed

lemma stop_video_returns:
  assumes "stop_video e s = Inr s'"
  obtains "s' = s\<lparr>is_playing := False, timer := None\<rparr>"
  | c where "cap s = Some c"
      "slider_setValue e 0
         (s\<lparr>is_playing := False, timer := None, cap := Some (c\<lparr>pos := 0\<rparr>), current_frame := 0\<rparr>) = Inr s'"
  | c s2 f c3 where "cap s = Some c"
      "slider_setValue e 0
         (s\<lparr>is_playing := False, timer := None, cap := Some (c\<lparr>pos := 0\<rparr>), current_frame := 0\<rparr>) = Inr s2"
      "display_frame e f (s2\<lparr>cap := Some c3\<rparr>) = Inr s'"
proof (cases "cap s")
  case None
  with assms have "s' = s\<lparr>is_playing := False, timer := None\<rparr>"
    by (simp add: stop_video_def)
  then show ?thesis by (rule that(1))
next
  case (Some c)
  let ?s1 = "s\<lparr>is_playing := False, timer := None, cap := Some (c\<lparr>pos := 0\<rparr>), current_frame := 0\<rparr>"
  from assms Some
  have eq: "(case slider_setValue e 0 ?s1 of
               Inl err \<Rightarrow> Inl err
             | Inr s2 \<Rightarrow>
                 (case cap s2 of
                    None \<Rightarrow> Inr s2
                  | Some c2 \<Rightarrow>
                      (case read c2 of
                         None \<Rightarrow> Inr s2
                       | Some (frame, c3) \<Rightarrow> display_frame e frame (s2\<lparr>cap := Some c3\<rparr>)))) = Inr s'"
    by (simp add: stop_video_def Let_def)
  show ?thesis
  proof (cases "slider_setValue e 0 ?s1")
    case (Inl err)
    with eq show ?thesis by simp
  next
    case s2: (Inr s2)
    show ?thesis
    proof (cases "cap s2")
      case None
      with eq s2 have "s' = s2" by simp
      with Some s2 show ?thesis by (intro that(2) [of c]) simp_all
    next
      case c2: (Some c2)
      show ?thesis
      proof (cases "read c2")
        case None
        with eq s2 c2 have "s' = s2" by simp
        with Some s2 show ?thesis by (intro that(2) [of c]) simp_all
      next
        case rd: (Some a)
        obtain f c3 where a: "a = (f, c3)" by (cases a)
        from eq s2 c2 rd a have "display_frame e f (s2\<lparr>cap := Some c3\<rparr>) = Inr s'"
          by simp
        with Some s2 show ?thesis by (intro that(3) [of c s2 f c3]) simp_all
      qed
    qed
  qed
qed

lemma stop_video_tally:
  assumes "stop_video e s = Inr s'"
  shows "tally s' = tally s"
  using assms
proof (rule stop_video_returns)
  assume "s' = s\<lparr>is_playing := False, timer := None\<rparr>"
  then show ?thesis by simp
next
  fix c
  assume "slider_setValue e 0
      (s\<lparr>is_playing := False, timer := None, cap := Some (c\<lparr>pos := 0\<rparr>), current_frame := 0\<rparr>) = Inr s'"
  from slider_setValue_tally [OF this] show ?thesis by simp
next
  fix c s2 f c3
  assume s2: "slider_setValue e 0
      (s\<lparr>is_playing := False, timer := None, cap := Some (c\<lparr>pos := 0\<rparr>), current_frame := 0\<rparr>) = Inr s2"
    and s': "display_frame e f (s2\<lparr>cap := Some c3\<rparr>) = Inr s'"
  have "tally s' = tally s2" using display_frame_tally [OF s'] by simp
  also have "\<dots> = tally s" using slider_setValue_tally [OF s2] by simp
  finally show ?thesis .
qed

text \<open>The cases of a timer slot that returns.\<close>

lemma update_frame_returns:
  assumes "update_frame e s = Inr s'"
  obtains "s' = s"
  | "stop_video e s = Inr s'"
  | c f c1 s2 s3 where "cap s = Some c" "is_opened c" "is_playing s" "read c = Some (f, c1)"
      "slider_setValue e (current_frame s + 1)
         (s\<lparr>cap := Some c1, current_frame := current_frame s + 1\<rparr>) = Inr s2"
      "display_frame e f s2 = Inr s3"
      "s' = analyze_frame e f s3 \<or> stop_video e (analyze_frame e f s3) = Inr s'"
proof (cases "cap s")
  case None
  with assms have "s' = s" by (simp add: update_frame_def)
  then show ?thesis by (rule that(1))
next
  case (Some c)
  show ?thesis
  proof (cases "is_opened c \<and> is_playing s")
    case False
    with assms Some have "s' = s" by (auto simp add: update_frame_def)
    then show ?thesis by (rule that(1))
  next
    case True
    show ?thesis
    proof (cases "read c")
      case None
      with assms Some True have "stop_video e s = Inr s'"
        by (simp add: update_frame_def)
      then show ?thesis by (rule that(2))
    next
      case (Some a)
      obtain f c1 where a: "a = (f, c1)" by (cases a)
      let ?s1 = "s\<lparr>cap := Some c1, current_frame := current_frame s + 1\<rparr>"
      from assms \<open>cap s = Some c\<close> True Some a
      have eq: "(case slider_setValue e (current_frame s + 1) ?s1 of
                   Inl err \<Rightarrow> Inl err
                 | Inr s2 \<Rightarrow>
                     (case display_frame e f s2 of
                        Inl err \<Rightarrow> Inl err
                      | Inr s3 \<Rightarrow>
                          (let s4 = analyze_frame e f s3
                           in if current_frame s4 \<ge> total_frames s4 - 1
                              then stop_video e s4 else Inr s4))) = Inr s'"
        by (simp add: update_frame_def)
      show ?thesis
      proof (cases "slider_setValue e (current_frame s + 1) ?s1")
        case (Inl err)
        with eq show ?thesis by simp
      next
        case s2: (Inr s2)
        show ?thesis
        proof (cases "display_frame e f s2")
          case (Inl err)
          with eq s2 show ?thesis by simp
        next
          case s3: (Inr s3)
          from eq s2 s3
          have "s' = analyze_frame e f s3 \<or> stop_video e (analyze_frame e f s3) = Inr s'"
            by (auto simp add: Let_def split: if_splits)
          with \<open>cap s = Some c\<close> True Some a s2 s3 show ?thesis
            by (intro that(3) [of c f c1 s2 s3]) simp_all
        qed
      qed
    qed
  qed
qed

lemma update_frame_tally:
  assumes "update_frame e s = Inr s'"
  shows "tally s' = tally s"
  using assms
proof (rule update_frame_returns)
  assume "s' = s"
  then show ?thesis by simp
next
  assume "stop_video e s = Inr s'"
  then show ?thesis by (rule stop_video_tally)
next
  fix c f c1 s2 s3
  assume s2: "slider_setValue e (current_frame s + 1)
      (s\<lparr>cap := Some c1, current_frame := current_frame s + 1\<rparr>) = Inr s2"
    and s3: "display_frame e f s2 = Inr s3"
    and s': "s' = analyze_frame e f s3 \<or> stop_video e (analyze_frame e f s3) = Inr s'"
  have "tally s3 = tally s2" by (rule display_frame_tally [OF s3])
  also have "\<dots> = tally s" using slider_setValue_tally [OF s2] by simp
  finally have "tally (analyze_frame e f s3) = tally s"
    by (simp add: analyze_frame_tally)
  moreover from s' have "tally s' = tally (analyze_frame e f s3)"
  proof
    assume "s' = analyze_frame e f s3"
    then show ?thesis by simp
  next
    assume "stop_video e (analyze_frame e f s3) = Inr s'"
    then show ?thesis by (rule stop_video_tally)
  qed
  ultimately show ?thesis by simp
qed

lemma timeout_tally:
  assumes "timeout e s = Inr s'"
  shows "tally s' = tally s"
proof (cases "timer s = None")
  case True
  with assms show ?thesis by (simp add: timeout_def)
next
  case False
  with assms have "update_frame e s = Inr s'" by (simp add: timeout_def)
  then show ?thesis by (rule update_frame_tally)
qed

lemma ticks_tally:
  "ticks e k s = Inr s' \<Longrightarrow> tally s' = tally s"
proof (induction k arbitrary: s)
  case 0
  then show ?case by simp
next
  case (Suc k)
  from Suc.prems obtain s1 where s1: "timeout e s = Inr s1" "ticks e k s1 = Inr s'"
    by (auto split: sum.splits)
  from Suc.IH [OF s1(2)] timeout_tally [OF s1(1)] show ?case by simp
qed

lemma toggle_play_tally:
  "toggle_play s = Inr s' \<Longrightarrow> tally s' = tally s"
  by (auto simp add: toggle_play_def play_video_def pause_video_def
        split: if_splits option.splits)

lemma handle_tally:
  assumes "handle e ev s = Inr s'"
  shows "tally s' = tally s"
proof (cases ev)
  case (Upload c)
  with assms have "load_video e c s = Inr s'" by (simp add: handle_def)
  then show ?thesis by (rule load_video_tally)
next
  case Play_clicked
  with assms have "toggle_play s = Inr s'" by (simp add: handle_def)
  then show ?thesis by (rule toggle_play_tally)
next
  case Stop_clicked
  with assms have "stop_video e s = Inr s'" by (simp add: handle_def)
  then show ?thesis by (rule stop_video_tally)
next
  case (Slider_moved v)
  with assms have "slider_setValue e v s = Inr s'" by (simp add: handle_def)
  then show ?thesis by (rule slider_setValue_tally)
next
  case Timer_fired
  with assms have "timeout e s = Inr s'" by (simp add: handle_def)
  then show ?thesis by (rule timeout_tally)
qed

lemma run_events_tally:
  "run_events e s evs = Inr s' \<Longrightarrow> tally s' = tally s"
proof (induction evs arbitrary: s)
  case Nil
  then show ?case by simp
next
  case (Cons ev evs)
  from Cons.prems obtain s1 where s1: "handle e ev s = Inr s1" "run_events e s1 evs = Inr s'"
    by (auto split: sum.splits)
  from Cons.IH [OF s1(2)] handle_tally [OF s1(1)] show ?case by simp
qed

section \<open>The tally\<close>

lemma ok_count_all_ok:
  "\<forall>f\<in>set fs. \<not> isl (g f) \<Longrightarrow> ok_count (map (\<lambda>f. (f, g f)) fs) = int (length fs)"
  by (induction fs) (simp_all add: ok_count_def)

lemma tally_init:
  "tally (live_init opens) = 0" "tally mp4_init = 0"
  by (simp_all add: tally_def live_init_def mp4_init_def ok_count_def)

text \<open>
  C3. With the classifier and the feature extractor loaded, a frame whose prediction
  does not raise adds one to \<open>active_count\<close> when the prediction is 1 and one to
  \<open>idle_count\<close> otherwise, and leaves the other counter as it is, on the live page
  (\<open>update_frame\<close>) and on the MP4 page (\<open>analyze_frame\<close>). On the live page the prediction
  lines run once on every frame the camera delivers. After any sequence of camera reads
  on the live page, and after any sequence of events on the MP4 page, the sum of the two
  counters has grown by the number of predictions made without an exception; counted from
  the start of the page, the sum is that number, and it is the number of frames when no
  prediction raises. A sequence is one that no exception ends; on the live page that is
  every sequence whose frames can all be shown.
\<close>

theorem tally_counts_classified:
  "(loaded e \<and> cap_opened s \<and> predict e f = Inr p \<and>
    live_update_frame e (Some f) s = Inr s' \<longrightarrow>
      (p = 1 \<longrightarrow> active_count s' = active_count s + 1 \<and> idle_count s' = idle_count s) \<and>
      (p \<noteq> 1 \<longrightarrow> active_count s' = active_count s \<and> idle_count s' = idle_count s + 1)) \<and>
   (loaded e \<and> predict e f = Inr p \<longrightarrow>
      (p = 1 \<longrightarrow>
         active_count (analyze_frame e f m) = active_count m + 1 \<and>
         idle_count (analyze_frame e f m) = idle_count m) \<and>
      (p \<noteq> 1 \<longrightarrow>
         active_count (analyze_frame e f m) = active_count m \<and>
         idle_count (analyze_frame e f m) = idle_count m + 1)) \<and>
   (loaded e \<and> cap_opened s \<and> live_run e s reads = Inr t \<longrightarrow>
      classified t = classified s @ map (\<lambda>f. (f, predict e f)) (frames_of reads)) \<and>
   (live_run e s reads = Inr t \<longrightarrow>
      active_count t + idle_count t - ok_count (classified t) =
        active_count s + idle_count s - ok_count (classified s)) \<and>
   (live_run e (live_init opens) reads = Inr u \<longrightarrow>
      active_count u + idle_count u = ok_count (classified u)) \<and>
   (loaded e \<and> (\<forall>f\<in>set (frames_of reads). \<not> isl (predict e f)) \<and>
    live_run e (live_init True) reads = Inr u \<longrightarrow>
      active_count u + idle_count u = int (length (frames_of reads))) \<and>
   ((\<forall>f\<in>set (frames_of reads). \<not> isl (cvtColor e f)) \<longrightarrow>
      (\<exists>t. live_run e s reads = Inr t)) \<and>
   (run_events e m evs = Inr m' \<longrightarrow>
      active_count m' + idle_count m' - ok_count (classified m') =
        active_count m + idle_count m - ok_count (classified m)) \<and>
   (run_events e mp4_init evs = Inr m' \<longrightarrow>
      active_count m' + idle_count m' = ok_count (classified m'))"
proof (intro conjI impI)
  assume h: "loaded e \<and> cap_opened s \<and> predict e f = Inr p \<and>
    live_update_frame e (Some f) s = Inr s'"
  then obtain rgb where s': "s' = (live_predict_block e f s)
      \<lparr>video_label := Pixmap rgb, rendered := rendered (live_predict_block e f s) @ [f]\<rparr>"
    by (auto elim: live_update_frame_returns)
  {
    assume "p = 1"
    with h s' show "active_count s' = active_count s + 1" and "idle_count s' = idle_count s"
      by (simp_all add: live_predict_block_active)
  }
  {
    assume "p \<noteq> 1"
    with h s' show "active_count s' = active_count s" and "idle_count s' = idle_count s + 1"
      by (simp_all add: live_predict_block_idle)
  }
next
  assume h: "loaded e \<and> predict e f = Inr p"
  {
    assume "p = 1"
    with h show "active_count (analyze_frame e f m) = active_count m + 1"
      and "idle_count (analyze_frame e f m) = idle_count m"
      by (simp_all add: analyze_frame_active)
  }
  {
    assume "p \<noteq> 1"
    with h show "active_count (analyze_frame e f m) = active_count m"
      and "idle_count (analyze_frame e f m) = idle_count m + 1"
      by (simp_all add: analyze_frame_idle)
  }
next
  assume "loaded e \<and> cap_opened s \<and> live_run e s reads = Inr t"
  then show "classified t = classified s @ map (\<lambda>f. (f, predict e f)) (frames_of reads)"
    by (simp add: live_run_classified)
next
  assume "live_run e s reads = Inr t"
  from live_run_tally [OF this]
  show "active_count t + idle_count t - ok_count (classified t) =
      active_count s + idle_count s - ok_count (classified s)"
    by (simp add: tally_def)
next
  assume "live_run e (live_init opens) reads = Inr u"
  from live_run_tally [OF this] have "tally u = 0"
    by (simp add: tally_init)
  then show "active_count u + idle_count u = ok_count (classified u)"
    by (simp add: tally_def)
next
  assume h: "loaded e \<and> (\<forall>f\<in>set (frames_of reads). \<not> isl (predict e f)) \<and>
    live_run e (live_init True) reads = Inr u"
  then have run: "live_run e (live_init True) reads = Inr u" by simp
  have "classified u = classified (live_init True) @ map (\<lambda>f. (f, predict e f)) (frames_of reads)"
    using h by (intro live_run_classified [OF run]) (simp_all add: live_init_def)
  then have "classified u = map (\<lambda>f. (f, predict e f)) (frames_of reads)"
    by (simp add: live_init_def)
  then have "ok_count (classified u) = int (length (frames_of reads))"
    using h by (simp add: ok_count_all_ok)
  moreover from live_run_tally [OF run] have "tally u = 0"
    by (simp add: tally_init)
  ultimately show "active_count u + idle_count u = int (length (frames_of reads))"
    by (simp add: tally_def)
next
  assume "\<forall>f\<in>set (frames_of reads). \<not> isl (cvtColor e f)"
  then show "\<exists>t. live_run e s reads = Inr t"
    by (rule live_run_returns)
next
  assume "run_events e m evs = Inr m'"
  from run_events_tally [OF this]
  show "active_count m' + idle_count m' - ok_count (classified m') =
      active_count m + idle_count m - ok_count (classified m)"
    by (simp add: tally_def)
next
  assume "run_events e mp4_init evs = Inr m'"
  from run_events_tally [OF this] have "tally m' = 0"
    by (simp add: tally_init)
  then show "active_count m' + idle_count m' = ok_count (classified m')"
    by (simp add: tally_def)
qed

theorem tally_counts_classified_witness:
  "(case live_update_frame stub_env (Some 1) (live_init True) of
      Inl err \<Rightarrow> False | Inr s \<Rightarrow> active_count s = 1 \<and> idle_count s = 0) \<and>
   (case live_update_frame stub_env (Some 2) (live_init True) of
      Inl err \<Rightarrow> False | Inr s \<Rightarrow> active_count s = 0 \<and> idle_count s = 1) \<and>
   active_count (analyze_frame stub_env 1 mp4_init) = 1 \<and>
   idle_count (analyze_frame stub_env 2 mp4_init) = 1 \<and>
   (case live_run stub_env (live_init True) [Some 0, Some 1, None, Some 2] of
      Inl err \<Rightarrow> False
    | Inr s \<Rightarrow> classified s = [(0, Inr 0), (1, Inr 1), (2, Inr 0)] \<and>
               active_count s + idle_count s = 3) \<and>
   (case live_run faulty_env (live_init True) [Some 0, Some 1, None, Some 2] of
      Inl err \<Rightarrow> False
    | Inr s \<Rightarrow> active_count s + idle_count s = 2) \<and>
   (case run_events stub_env mp4_init
           [Upload ten_frames, Slider_moved 7, Play_clicked, Timer_fired, Stop_clicked] of
      Inl err \<Rightarrow> False
    | Inr m \<Rightarrow> active_count m + idle_count m = ok_count (classified m) \<and>
               active_count m + idle_count m = 4)"
proof -
  have ld: "loaded stub_env"
    by (simp add: stub_env_def loaded_def)
  have op: "cap_opened (live_init True :: int live_page)"
    by (simp add: live_init_def)
  have p1: "predict stub_env 1 = Inr 1" and p2: "predict stub_env 2 = Inr 0"
    and p0: "predict stub_env 0 = Inr 0"
    by (simp_all add: stub_env_def predict_def)
  have c0: "active_count (live_init True :: int live_page) = 0"
      "idle_count (live_init True :: int live_page) = 0"
      "classified (live_init True :: int live_page) = []"
      "active_count (mp4_init :: int mp4_page) = 0" "idle_count (mp4_init :: int mp4_page) = 0"
    by (simp_all add: live_init_def mp4_init_def)
  have fr: "frames_of [Some 0, Some 1, None, Some (2 :: int)] = [0, 1, 2]"
    by (simp add: frames_of_def)
  have all_ok: "\<forall>f\<in>set (frames_of [Some 0, Some 1, None, Some (2 :: int)]). \<not> isl (predict stub_env f)"
    using p0 p1 p2 by (simp add: fr)
  have shown: "\<forall>f\<in>set (frames_of reads). \<not> isl (cvtColor stub_env f)" for reads
    by (simp add: stub_env_def)
  have shown': "\<forall>f\<in>set (frames_of reads). \<not> isl (cvtColor faulty_env f)" for reads
    by (simp add: faulty_env_def)
  have a: "case live_update_frame stub_env (Some 1) (live_init True) of
      Inl err \<Rightarrow> False | Inr s \<Rightarrow> active_count s = 1 \<and> idle_count s = 0"
  proof (cases "live_update_frame stub_env (Some 1) (live_init True)")
    case (Inl err)
    then show ?thesis
      by (simp add: live_update_frame_def live_init_def stub_env_def Let_def)
  next
    case (Inr s)
    then show ?thesis
      using tally_counts_classified [where e = stub_env and s = "live_init True" and f = 1
          and p = 1 and s' = s, THEN conjunct1] ld op p1 c0 by simp
  qed
  have b: "case live_update_frame stub_env (Some 2) (live_init True) of
      Inl err \<Rightarrow> False | Inr s \<Rightarrow> active_count s = 0 \<and> idle_count s = 1"
  proof (cases "live_update_frame stub_env (Some 2) (live_init True)")
    case (Inl err)
    then show ?thesis
      by (simp add: live_update_frame_def live_init_def stub_env_def Let_def)
  next
    case (Inr s)
    then show ?thesis
      using tally_counts_classified [where e = stub_env and s = "live_init True" and f = 2
          and p = 0 and s' = s, THEN conjunct1] ld op p2 c0 by simp
  qed
  have c: "active_count (analyze_frame stub_env 1 mp4_init) = 1"
    using tally_counts_classified [where e = stub_env and m = mp4_init and f = 1
        and p = 1, THEN conjunct2, THEN conjunct1] ld p1 c0 by simp
  have d: "idle_count (analyze_frame stub_env 2 mp4_init) = 1"
    using tally_counts_classified [where e = stub_env and m = mp4_init and f = 2
        and p = 0, THEN conjunct2, THEN conjunct1] ld p2 c0 by simp
  obtain t where t: "live_run stub_env (live_init True) [Some 0, Some 1, None, Some 2] = Inr t"
    using tally_counts_classified [where e = stub_env and s = "live_init True"
        and reads = "[Some 0, Some 1, None, Some 2]",
        THEN conjunct2, THEN conjunct2, THEN conjunct2, THEN conjunct2, THEN conjunct2,
        THEN conjunct2, THEN conjunct1] shown
    by blast
  have e1: "classified t = [(0, Inr 0), (1, Inr 1), (2, Inr 0)]"
    using tally_counts_classified [where e = stub_env and s = "live_init True" and t = t
        and reads = "[Some 0, Some 1, None, Some 2]",
        THEN conjunct2, THEN conjunct2, THEN conjunct1] ld op c0 p0 p1 p2 t
    by (simp add: fr)
  have f1: "active_count t + idle_count t = 3"
    using tally_counts_classified [where e = stub_env and u = t
        and reads = "[Some 0, Some 1, None, Some 2]",
        THEN conjunct2, THEN conjunct2, THEN conjunct2, THEN conjunct2, THEN conjunct2,
        THEN conjunct1] ld all_ok t
    by (simp add: fr)
  obtain u where u: "live_run faulty_env (live_init True) [Some 0, Some 1, None, Some 2] = Inr u"
    using tally_counts_classified [where e = faulty_env and s = "live_init True"
        and reads = "[Some 0, Some 1, None, Some 2]",
        THEN conjunct2, THEN conjunct2, THEN conjunct2, THEN conjunct2, THEN conjunct2,
        THEN conjunct2, THEN conjunct1] shown'
    by blast
  have log: "case live_run faulty_env (live_init True) [Some 0, Some 1, None, Some 2] of
      Inl err \<Rightarrow> False | Inr s \<Rightarrow> ok_count (classified s) = 2"
    by code_simp
  have g: "active_count u + idle_count u = 2"
    using tally_counts_classified [where e = faulty_env and opens = True and u = u
        and reads = "[Some 0, Some 1, None, Some 2]",
        THEN conjunct2, THEN conjunct2, THEN conjunct2, THEN conjunct2, THEN conjunct1] log u
    by simp
  have ev: "case run_events stub_env mp4_init
      [Upload ten_frames, Slider_moved 7, Play_clicked, Timer_fired, Stop_clicked] of
      Inl err \<Rightarrow> False | Inr m \<Rightarrow> ok_count (classified m) = 4"
    by code_simp
  have h: "case run_events stub_env mp4_init
      [Upload ten_frames, Slider_moved 7, Play_clicked, Timer_fired, Stop_clicked] of
      Inl err \<Rightarrow> False
    | Inr m \<Rightarrow> active_count m + idle_count m = ok_count (classified m) \<and>
               active_count m + idle_count m = 4"
  proof (cases "run_events stub_env mp4_init
      [Upload ten_frames, Slider_moved 7, Play_clicked, Timer_fired, Stop_clicked]")
    case (Inl err)
    with ev show ?thesis by simp
  next
    case (Inr m)
    have "active_count m + idle_count m = ok_count (classified m)"
      using tally_counts_classified [where e = stub_env and m' = m
          and evs = "[Upload ten_frames, Slider_moved 7, Play_clicked, Timer_fired, Stop_clicked]",
          THEN conjunct2, THEN conjunct2, THEN conjunct2, THEN conjunct2, THEN conjunct2,
          THEN conjunct2, THEN conjunct2, THEN conjunct2] Inr
      by simp
    with ev Inr show ?thesis by simp
  qed
  from a b c d e1 f1 g h t u show ?thesis by (simp del: live_run.simps)
qed

section \<open>Missing classifier and failing predictions\<close>

text \<open>
  C4. When the load at module level fails, \<open>clf\<close> and \<open>feature_extractor\<close> are \<open>None\<close>.
  Then, over any sequence of camera reads that no exception ends, the live page changes
  neither counter nor the numbers shown for them, never runs the prediction lines, and
  leaves the prediction label and the alert label as they were, which from the start of
  the page are the texts "Initializing..." and "System Ready"; every frame read from an
  opened camera is still rendered. No exception ends the sequence when every frame read
  can be shown. On the MP4 page \<open>analyze_frame\<close> changes nothing.
\<close>

theorem no_classifier_no_tally:
  assumes "isl joblib_load \<or> isl mobilenet"
    and "e = load_models p cvt joblib_load mobilenet"
  shows "clf e = None \<and> feature_extractor e = None \<and>
    (live_run e s reads = Inr t \<longrightarrow>
       active_count t = active_count s \<and>
       idle_count t = idle_count s \<and>
       active_stats t = active_stats s \<and>
       idle_stats t = idle_stats s \<and>
       classified t = classified s \<and>
       pred_label t = pred_label s \<and>
       alert_label t = alert_label s \<and>
       (cap_opened s \<longrightarrow> rendered t = rendered s @ frames_of reads)) \<and>
    (live_run e (live_init opens) reads = Inr u \<longrightarrow>
       active_count u = 0 \<and>
       idle_count u = 0 \<and>
       pred_label u = Initializing \<and>
       alert_label u = System_ready) \<and>
    ((\<forall>f\<in>set (frames_of reads). \<not> isl (cvt f)) \<longrightarrow> (\<exists>t. live_run e s reads = Inr t)) \<and>
    analyze_frame e f m = m"
proof -
  from assms have none: "clf e = None" "feature_extractor e = None" and unl: "\<not> loaded e"
    using load_models_failed [of joblib_load mobilenet p cvt] by simp_all
  have cvt: "cvtColor e = cvt"
    using assms(2) by (simp add: load_models_def split: sum.splits)
  have run: "active_count t = active_count s \<and>
       idle_count t = idle_count s \<and>
       active_stats t = active_stats s \<and>
       idle_stats t = idle_stats s \<and>
       classified t = classified s \<and>
       pred_label t = pred_label s \<and>
       alert_label t = alert_label s \<and>
       (cap_opened s \<longrightarrow> rendered t = rendered s @ frames_of reads)"
    if "live_run e s reads = Inr t"
    using live_run_unloaded_keeps [OF unl that] live_run_rendered [OF that] by simp
  have start: "active_count u = 0 \<and> idle_count u = 0 \<and>
       pred_label u = Initializing \<and> alert_label u = System_ready"
    if "live_run e (live_init opens) reads = Inr u"
    using live_run_unloaded_keeps [OF unl that] by (simp add: live_init_def)
  have total: "\<exists>t. live_run e s reads = Inr t"
    if "\<forall>f\<in>set (frames_of reads). \<not> isl (cvt f)"
    using that by (intro live_run_returns) (simp add: cvt)
  show ?thesis
    using none run start total analyze_frame_unloaded [OF unl, of f m] by blast
qed

theorem no_classifier_no_tally_witness:
  "clf absent_env = None \<and>
   (case live_run absent_env (live_init True) [Some 4, None, Some 5, Some 6] of
      Inl err \<Rightarrow> False
    | Inr t \<Rightarrow>
        active_count t = 0 \<and> idle_count t = 0 \<and> pred_label t = Initializing \<and>
        rendered t = [4, 5, 6])"
proof -
  have failed: "isl (Inl OSError :: error + (int \<Rightarrow> error + int)) \<or>
      isl (Inr Inr :: error + (int \<Rightarrow> error + int))"
    by simp
  have opened: "cap_opened (live_init True :: int live_page)"
      "rendered (live_init True :: int live_page) = []"
    by (simp_all add: live_init_def)
  have fr: "frames_of [Some 4, None, Some 5, Some (6 :: int)] = [4, 5, 6]"
    by (simp add: frames_of_def)
  have shown: "\<forall>f\<in>set (frames_of [Some 4, None, Some 5, Some (6 :: int)]).
      \<not> isl (Inr f :: error + int)"
    by simp
  note t = no_classifier_no_tally [OF failed absent_env_def, where opens = True
      and s = "live_init True" and reads = "[Some 4, None, Some 5, Some 6]"
      and f = 0 and m = mp4_init]
  from t shown obtain t
    where run: "live_run absent_env (live_init True) [Some 4, None, Some 5, Some 6] = Inr t"
    by blast
  from t [where t = t and u = t] run opened fr
  have "clf absent_env = None \<and> active_count t = 0 \<and> idle_count t = 0 \<and>
      pred_label t = Initializing \<and> rendered t = [4, 5, 6]"
    by (simp del: live_run.simps add: live_init_def)
  with run show ?thesis by (simp del: live_run.simps)
qed




section \<open>Properties of the worker thread\<close>

lemma sampled_pred_failure:
  "\<not> loaded e \<or> isl (predict e f) \<Longrightarrow> sampled_pred e f = 0"
  by (auto simp add: sampled_pred_def split: sum.splits)

lemma run_loop_numbers:
  "sampled_numbers (run_loop e fs k) = filter (\<lambda>i. i mod 5 = 0) [k..<k + length fs]"
proof (induction fs arbitrary: k)
  case Nil
  show ?case by (simp add: sampled_numbers_def)
next
  case (Cons f fs)
  have "[k..<k + length (f # fs)] = k # [Suc k..<Suc k + length fs]"
    using upt_rec [of k "k + length (f # fs)"] by simp
  then show ?case
    using Cons.IH [of "Suc k"] by (simp add: sampled_numbers_def)
qed

lemma run_loop_signal:
  "Frame_processed f p i \<in> set (run_loop e fs k) \<Longrightarrow>
   k \<le> i \<and> i < k + length fs \<and> i mod 5 = 0 \<and> f = fs ! (i - k) \<and> p = sampled_pred e f"
proof (induction fs arbitrary: k)
  case Nil
  then show ?case by simp
next
  case (Cons g fs)
  show ?case
  proof (cases "Frame_processed f p i \<in> set (run_loop e fs (Suc k))")
    case True
    from Cons.IH [OF True] have "Suc k \<le> i" "i < Suc k + length fs" "i mod 5 = 0"
        "f = fs ! (i - Suc k)" "p = sampled_pred e f"
      by simp_all
    moreover from \<open>Suc k \<le> i\<close> have "(g # fs) ! (i - k) = fs ! (i - Suc k)"
      by (simp add: Suc_diff_le)
    ultimately show ?thesis by simp
  next
    case False
    with Cons.prems have "k mod 5 = 0" "f = g" "p = sampled_pred e g" "i = k"
      by (auto split: if_splits)
    then show ?thesis by simp
  qed
qed

lemma run_loop_complete:
  "(\<exists>f p. Frame_processed f p i \<in> set (run_loop e fs k)) \<longleftrightarrow>
   i \<in> set (sampled_numbers (run_loop e fs k))"
  by (induction fs arbitrary: k) (auto simp add: sampled_numbers_def)

lemma count_multiples_of_5:
  "length (filter (\<lambda>i. i mod 5 = 0) [0..<n]) = (n + 4) div 5"
proof (induction n)
  case 0
  show ?case by simp
next
  case (Suc n)
  show ?case
  proof (cases "n mod 5 = 0")
    case True
    then have "(Suc n + 4) div 5 = Suc ((n + 4) div 5)" by presburger
    with True Suc show ?thesis by simp
  next
    case False
    then have "(Suc n + 4) div 5 = (n + 4) div 5" by presburger
    with False Suc show ?thesis by simp
  qed
qed

lemma run_numbers:
  "is_opened c \<Longrightarrow>
   sampled_numbers (run e c) = filter (\<lambda>i. i mod 5 = 0) [0..<length (frames c)]"
  using run_loop_numbers [of e "frames c" 0]
  by (simp add: run_def sampled_numbers_def)

lemma run_signal:
  assumes "Frame_processed f p i \<in> set (run e c)"
  shows "is_opened c \<and> i < length (frames c) \<and> i mod 5 = 0 \<and> f = frames c ! i \<and>
         p = sampled_pred e f"
proof -
  from assms have "Frame_processed f p i \<in> set (run_loop e (if is_opened c then frames c else []) 0)"
    by (simp add: run_def)
  from run_loop_signal [OF this] show ?thesis
    by (cases "is_opened c") simp_all
qed

text \<open>
  C9. In the worker thread, a sampled frame for which the classifier or the feature
  extractor is missing, or for which preprocessing or prediction raises, is emitted with
  prediction 0. Every signal \<open>frame_processed\<close> of \<open>run\<close> carries a frame of the file at an
  index divisible by 5 with a prediction, which is 0 in each of these cases, and every
  index divisible by 5 has its signal: no sampled frame is skipped and none is reported as
  an error.
\<close>

theorem worker_reports_idle_on_failure:
  "(\<not> loaded e \<or> isl (predict e f) \<longrightarrow> sampled_pred e f = 0) \<and>
   (Frame_processed f p k \<in> set (run e c) \<longrightarrow>
      is_opened c \<and> k < length (frames c) \<and> k mod 5 = 0 \<and> f = frames c ! k \<and>
      p = sampled_pred e f \<and>
      (\<not> loaded e \<or> isl (predict e f) \<longrightarrow> p = 0)) \<and>
   (is_opened c \<and> k < length (frames c) \<and> k mod 5 = 0 \<longrightarrow>
      Frame_processed (frames c ! k) (sampled_pred e (frames c ! k)) k \<in> set (run e c))"
proof (intro conjI impI)
  assume "\<not> loaded e \<or> isl (predict e f)"
  then show "sampled_pred e f = 0" by (rule sampled_pred_failure)
next
  assume sig: "Frame_processed f p k \<in> set (run e c)"
  from run_signal [OF sig]
  show "is_opened c" and "k < length (frames c)" and "k mod 5 = 0" and "f = frames c ! k"
    and p: "p = sampled_pred e f"
    by simp_all
  assume "\<not> loaded e \<or> isl (predict e f)"
  with p show "p = 0" by (simp add: sampled_pred_failure)
next
  assume h: "is_opened c \<and> k < length (frames c) \<and> k mod 5 = 0"
  then have "k \<in> set (sampled_numbers (run_loop e (frames c) 0))"
    by (simp add: run_loop_numbers)
  then obtain f p where sig: "Frame_processed f p k \<in> set (run_loop e (frames c) 0)"
    using run_loop_complete [of k e "frames c" 0] by blast
  from run_loop_signal [OF sig] have "f = frames c ! k" "p = sampled_pred e f"
    by simp_all
  with sig h show "Frame_processed (frames c ! k) (sampled_pred e (frames c ! k)) k \<in> set (run e c)"
    by (simp add: run_def)
qed

theorem worker_reports_idle_on_failure_witness:
  "run absent_env ten_frames =
     [Frame_processed 0 0 0, Frame_processed 5 0 5, Processing_complete] \<and>
   run faulty_env ten_frames =
     [Frame_processed 0 0 0, Frame_processed 5 1 5, Processing_complete] \<and>
   sampled_pred absent_env 5 = 0 \<and> sampled_pred faulty_env 0 = 0"
proof -
  have unl: "\<not> loaded absent_env \<or> isl (predict absent_env 5)"
    by (simp add: absent_env_def load_models_def loaded_def)
  have raises: "\<not> loaded faulty_env \<or> isl (predict faulty_env 0)"
    by (simp add: faulty_env_def predict_def)
  have r1: "run absent_env ten_frames =
      [Frame_processed 0 0 0, Frame_processed 5 0 5, Processing_complete]"
    by code_simp
  have r2: "run faulty_env ten_frames =
      [Frame_processed 0 0 0, Frame_processed 5 1 5, Processing_complete]"
    by code_simp
  have sig: "Frame_processed 5 0 5 \<in> set (run absent_env ten_frames)"
    by (simp add: r1)
  have pos: "is_opened ten_frames \<and> 5 < length (frames ten_frames) \<and> (5 :: nat) mod 5 = 0"
    by (simp add: ten_frames_def)
  have a: "sampled_pred absent_env 5 = 0"
    using worker_reports_idle_on_failure [where e = absent_env and f = 5, THEN conjunct1] unl
    by simp
  have b: "sampled_pred faulty_env 0 = 0"
    using worker_reports_idle_on_failure [where e = faulty_env and f = 0, THEN conjunct1] raises
    by simp
  have d: "(0 :: int) = sampled_pred absent_env 5"
    using worker_reports_idle_on_failure [where e = absent_env and f = 5 and p = 0 and k = 5
        and c = ten_frames, THEN conjunct2, THEN conjunct1] sig
    by simp
  have e: "Frame_processed (frames ten_frames ! 5) (sampled_pred absent_env (frames ten_frames ! 5)) 5
      \<in> set (run absent_env ten_frames)"
    using worker_reports_idle_on_failure [where e = absent_env and k = 5 and c = ten_frames,
        THEN conjunct2, THEN conjunct2] pos
    by simp
  from a b d e r1 r2 show ?thesis by simp
qed


section \<open>Seeking and playback on the MP4 page\<close>

lemma extends_refl:
  "extends s s"
  by (simp add: extends_def)

lemma extends_trans:
  "extends s s' \<Longrightarrow> extends s' s'' \<Longrightarrow> extends s s''"
  by (auto simp add: extends_def intro: prefix_order.trans)

lemma extends_updates [simp]:
  "extends s (s'\<lparr>cap := a\<rparr>) = extends s s'"
  "extends s (s'\<lparr>current_frame := j\<rparr>) = extends s s'"
  "extends s (s'\<lparr>total_frames := j\<rparr>) = extends s s'"
  "extends s (s'\<lparr>fps := q\<rparr>) = extends s s'"
  "extends s (s'\<lparr>timer := t\<rparr>) = extends s s'"
  "extends s (s'\<lparr>is_playing := b\<rparr>) = extends s s'"
  "extends s (s'\<lparr>slider_value := j\<rparr>) = extends s s'"
  "extends s (s'\<lparr>slider_minimum := j\<rparr>) = extends s s'"
  "extends s (s'\<lparr>slider_maximum := j\<rparr>) = extends s s'"
  "extends (s\<lparr>cap := a\<rparr>) s' = extends s s'"
  "extends (s\<lparr>current_frame := j\<rparr>) s' = extends s s'"
  "extends (s\<lparr>is_playing := b\<rparr>) s' = extends s s'"
  "extends (s\<lparr>timer := t\<rparr>) s' = extends s s'"
  "extends (s\<lparr>slider_value := j\<rparr>) s' = extends s s'"
  "extends (s\<lparr>slider_minimum := j\<rparr>) s' = extends s s'"
  "extends (s\<lparr>slider_maximum := j\<rparr>) s' = extends s s'"
  by (simp_all add: extends_def)

lemma display_frame_extends:
  assumes "display_frame e f s = Inr s'"
  shows "extends s s'"
  using assms
  by (rule display_frame_returns) (simp add: extends_def)

lemma analyze_frame_records:
  "rendered (analyze_frame e f s) = rendered s"
  "classified (analyze_frame e f s) =
     classified s @ (if loaded e then [(f, predict e f)] else [])"
  by (simp_all add: analyze_frame_def Let_def split: sum.splits)

lemma analyze_frame_extends:
  "extends s (analyze_frame e f s)"
  by (simp add: extends_def analyze_frame_records)

lemma seek_frame_extends:
  assumes "seek_frame e j s = Inr s'"
  shows "extends s s'"
  using assms
proof (rule seek_frame_returns)
  assume "s' = s"
  then show ?thesis by (simp add: extends_refl)
next
  fix c
  assume "s' = s\<lparr>cap := Some (c\<lparr>pos := j\<rparr>), current_frame := j\<rparr>"
  then show ?thesis by (simp add: extends_refl)
next
  fix c f c2 s2
  assume s2: "display_frame e f (s\<lparr>current_frame := j, cap := Some c2\<rparr>) = Inr s2"
    and s': "s' = analyze_frame e f s2"
  have "extends s s2"
    using display_frame_extends [OF s2] by simp
  moreover have "extends s2 s'"
    using s' by (simp add: analyze_frame_extends)
  ultimately show ?thesis by (rule extends_trans)
qed

lemma slider_setValue_extends:
  assumes "slider_setValue e v s = Inr s'"
  shows "extends s s'"
  using assms
proof (rule slider_setValue_returns)
  assume "s' = s"
  then show ?thesis by (simp add: extends_refl)
next
  fix w
  assume "seek_frame e w (s\<lparr>slider_value := w\<rparr>) = Inr s'"
  from seek_frame_extends [OF this] show ?thesis by simp
qed

lemma stop_video_extends:
  assumes "stop_video e s = Inr s'"
  shows "extends s s'"
  using assms
proof (rule stop_video_returns)
  assume "s' = s\<lparr>is_playing := False, timer := None\<rparr>"
  then show ?thesis by (simp add: extends_refl)
next
  fix c
  assume "slider_setValue e 0
      (s\<lparr>is_playing := False, timer := None, cap := Some (c\<lparr>pos := 0\<rparr>), current_frame := 0\<rparr>) = Inr s'"
  from slider_setValue_extends [OF this] show ?thesis by simp
next
  fix c s2 f c3
  assume s2: "slider_setValue e 0
      (s\<lparr>is_playing := False, timer := None, cap := Some (c\<lparr>pos := 0\<rparr>), current_frame := 0\<rparr>) = Inr s2"
    and s': "display_frame e f (s2\<lparr>cap := Some c3\<rparr>) = Inr s'"
  have "extends s s2"
    using slider_setValue_extends [OF s2] by simp
  moreover have "extends s2 s'"
    using display_frame_extends [OF s'] by simp
  ultimately show ?thesis by (rule extends_trans)
qed

lemma extendsD:
  "extends s s' \<Longrightarrow>
   \<exists>r k. rendered s' = rendered s @ r \<and> classified s' = classified s @ k"
  by (auto simp add: extends_def prefix_def)

text \<open>The timer slot on a playing page whose file gives a frame.\<close>

lemma update_frame_playing:
  assumes "cap s = Some c" "is_opened c" "is_playing s" "read c = Some (f, c1)"
    and "update_frame e s = Inr s'"
  obtains s2 s3 where
    "slider_setValue e (current_frame s + 1)
       (s\<lparr>cap := Some c1, current_frame := current_frame s + 1\<rparr>) = Inr s2"
    "display_frame e f s2 = Inr s3"
    "s' = analyze_frame e f s3 \<or> stop_video e (analyze_frame e f s3) = Inr s'"
proof -
  let ?s1 = "s\<lparr>cap := Some c1, current_frame := current_frame s + 1\<rparr>"
  from assms
  have eq: "(case slider_setValue e (current_frame s + 1) ?s1 of
               Inl err \<Rightarrow> Inl err
             | Inr s2 \<Rightarrow>
                 (case display_frame e f s2 of
                    Inl err \<Rightarrow> Inl err
                  | Inr s3 \<Rightarrow>
                      (let s4 = analyze_frame e f s3
                       in if current_frame s4 \<ge> total_frames s4 - 1
                          then stop_video e s4 else Inr s4))) = Inr s'"
    by (simp add: update_frame_def)
  show ?thesis
  proof (cases "slider_setValue e (current_frame s + 1) ?s1")
    case (Inl err)
    with eq show ?thesis by simp
  next
    case s2: (Inr s2)
    show ?thesis
    proof (cases "display_frame e f s2")
      case (Inl err)
      with eq s2 show ?thesis by simp
    next
      case s3: (Inr s3)
      from eq s2 s3
      have "s' = analyze_frame e f s3 \<or> stop_video e (analyze_frame e f s3) = Inr s'"
        by (auto simp add: Let_def split: if_splits)
      with s2 s3 show ?thesis by (rule that)
    qed
  qed
qed

lemma update_frame_reads:
  assumes "cap s = Some c" "is_opened c" "is_playing s" "read c = Some (f, c1)"
    and "update_frame e s = Inr s'"
  shows "\<exists>r r' k k'.
     rendered s' = rendered s @ r @ [f] @ r' \<and>
     classified s' =
       classified s @ k @ (if loaded e then [(f, predict e f)] else []) @ k'"
  using assms
proof (rule update_frame_playing)
  fix s2 s3
  assume s2: "slider_setValue e (current_frame s + 1)
      (s\<lparr>cap := Some c1, current_frame := current_frame s + 1\<rparr>) = Inr s2"
    and s3: "display_frame e f s2 = Inr s3"
    and s': "s' = analyze_frame e f s3 \<or> stop_video e (analyze_frame e f s3) = Inr s'"
  let ?s4 = "analyze_frame e f s3"
  have "extends s s2"
    using slider_setValue_extends [OF s2] by simp
  then obtain r k where r: "rendered s2 = rendered s @ r" "classified s2 = classified s @ k"
    using extendsD by blast
  from s3 have "rendered s3 = rendered s2 @ [f]" "classified s3 = classified s2"
    by (auto elim: display_frame_returns)
  with r have s4: "rendered ?s4 = rendered s @ r @ [f]"
      "classified ?s4 = classified s @ k @ (if loaded e then [(f, predict e f)] else [])"
    by (simp_all add: analyze_frame_records)
  from s' have "extends ?s4 s'"
  proof
    assume "s' = ?s4"
    then show ?thesis by (simp add: extends_refl)
  next
    assume "stop_video e ?s4 = Inr s'"
    then show ?thesis by (rule stop_video_extends)
  qed
  then obtain r' k' where "rendered s' = rendered ?s4 @ r'" "classified s' = classified ?s4 @ k'"
    using extendsD by blast
  with s4 have "rendered s' = rendered s @ r @ [f] @ r' \<and>
      classified s' = classified s @ k @ (if loaded e then [(f, predict e f)] else []) @ k'"
    by simp
  then show ?thesis by blast
qed

lemma seek_frame_readable:
  assumes "cap s = Some c" "is_opened c" "0 \<le> j" "j < int (length (frames c))"
    and "cvtColor e (frames c ! nat j) = Inr rgb"
  shows "seek_frame e j s =
     Inr (analyze_frame e (frames c ! nat j)
       (s\<lparr>current_frame := j, cap := Some (c\<lparr>pos := j + 1\<rparr>),
          video_label := Pixmap rgb, rendered := rendered s @ [frames c ! nat j]\<rparr>))"
  using assms by (simp add: seek_frame_def read_def display_frame_shown)

lemma analyze_frame_counts:
  assumes "loaded e" "predict e f = Inr p"
  shows "active_count (analyze_frame e f s) + idle_count (analyze_frame e f s) =
         active_count s + idle_count s + 1"
  using assms
  by (cases "p = 1") (simp_all add: analyze_frame_active analyze_frame_idle)

lemma analyze_frame_keeps:
  "cap (analyze_frame e f s) = cap s"
  "is_playing (analyze_frame e f s) = is_playing s"
  "current_frame (analyze_frame e f s) = current_frame s"
  by (simp_all add: analyze_frame_def Let_def split: sum.splits)

lemma seek_frame_effect:
  assumes "cap s = Some c" "is_opened c" "0 \<le> j" "j < int (length (frames c))"
    and "cvtColor e (frames c ! nat j) = Inr rgb"
    and "loaded e" "predict e (frames c ! nat j) = Inr p"
  obtains s' where "seek_frame e j s = Inr s'"
    "classified s' = classified s @ [(frames c ! nat j, Inr p)]"
    "rendered s' = rendered s @ [frames c ! nat j]"
    "active_count s' + idle_count s' = active_count s + idle_count s + 1"
    "current_frame s' = j"
    "is_playing s' = is_playing s"
    "cap s' = Some (c\<lparr>pos := j + 1\<rparr>)"
proof -
  let ?t = "s\<lparr>current_frame := j, cap := Some (c\<lparr>pos := j + 1\<rparr>),
      video_label := Pixmap rgb, rendered := rendered s @ [frames c ! nat j]\<rparr>"
  let ?s' = "analyze_frame e (frames c ! nat j) ?t"
  have "seek_frame e j s = Inr ?s'"
    using assms(1-5) by (rule seek_frame_readable)
  moreover have "classified ?s' = classified s @ [(frames c ! nat j, Inr p)]"
    using assms(6,7) by (simp add: analyze_frame_records)
  moreover have "rendered ?s' = rendered s @ [frames c ! nat j]"
    by (simp add: analyze_frame_records)
  moreover have "active_count ?s' + idle_count ?s' = active_count s + idle_count s + 1"
    using analyze_frame_counts [OF assms(6,7), of ?t] by simp
  moreover have "current_frame ?s' = j" "is_playing ?s' = is_playing s"
      "cap ?s' = Some (c\<lparr>pos := j + 1\<rparr>)"
    by (simp_all add: analyze_frame_keeps)
  ultimately show ?thesis by (rule that)
qed

text \<open>
  C10. A seek to a frame of the opened file that can be shown, with the classifier and the
  feature extractor loaded and a prediction that does not raise, returns with that frame
  rendered, the prediction run on it and one added to the sum of the two counters,
  whether the page is playing or not. A second seek to the same frame counts it again.
  Moving the slider to another value within its range is such a seek.
\<close>

theorem seek_counts_frame:
  assumes "cap m = Some c" and "is_opened c" and "0 \<le> j" and "j < int (length (frames c))"
    and "loaded e" and "predict e (frames c ! nat j) = Inr p"
    and "cvtColor e (frames c ! nat j) = Inr rgb"
  shows "\<exists>m1 m2.
    seek_frame e j m = Inr m1 \<and>
    classified m1 = classified m @ [(frames c ! nat j, Inr p)] \<and>
    rendered m1 = rendered m @ [frames c ! nat j] \<and>
    active_count m1 + idle_count m1 = active_count m + idle_count m + 1 \<and>
    current_frame m1 = j \<and>
    is_playing m1 = is_playing m \<and>
    seek_frame e j m1 = Inr m2 \<and>
    classified m2 = classified m @ [(frames c ! nat j, Inr p), (frames c ! nat j, Inr p)] \<and>
    active_count m2 + idle_count m2 = active_count m + idle_count m + 2 \<and>
    (slider_minimum m \<le> j \<and> j \<le> slider_maximum m \<and> j \<noteq> slider_value m \<longrightarrow>
       handle e (Slider_moved j) m = seek_frame e j (m\<lparr>slider_value := j\<rparr>) \<and>
       (\<exists>m3. handle e (Slider_moved j) m = Inr m3 \<and>
          classified m3 = classified m @ [(frames c ! nat j, Inr p)] \<and>
          active_count m3 + idle_count m3 = active_count m + idle_count m + 1))"
proof -
  from assms(1-4,7,5,6) obtain m1 where m1: "seek_frame e j m = Inr m1"
      "classified m1 = classified m @ [(frames c ! nat j, Inr p)]"
      "rendered m1 = rendered m @ [frames c ! nat j]"
      "active_count m1 + idle_count m1 = active_count m + idle_count m + 1"
      "current_frame m1 = j" "is_playing m1 = is_playing m"
      "cap m1 = Some (c\<lparr>pos := j + 1\<rparr>)"
    by (rule seek_frame_effect)
  let ?c = "c\<lparr>pos := j + 1\<rparr>"
  have again: "is_opened ?c" "j < int (length (frames ?c))"
      "cvtColor e (frames ?c ! nat j) = Inr rgb" "predict e (frames ?c ! nat j) = Inr p"
    using assms by simp_all
  from m1(7) again(1) assms(3) again(2,3) assms(5) again(4)
  obtain m2 where m2: "seek_frame e j m1 = Inr m2"
      "classified m2 = classified m1 @ [(frames ?c ! nat j, Inr p)]"
      "active_count m2 + idle_count m2 = active_count m1 + idle_count m1 + 1"
    by (rule seek_frame_effect)
  have slider: "handle e (Slider_moved j) m = seek_frame e j (m\<lparr>slider_value := j\<rparr>) \<and>
      (\<exists>m3. handle e (Slider_moved j) m = Inr m3 \<and>
         classified m3 = classified m @ [(frames c ! nat j, Inr p)] \<and>
         active_count m3 + idle_count m3 = active_count m + idle_count m + 1)"
    if range: "slider_minimum m \<le> j \<and> j \<le> slider_maximum m \<and> j \<noteq> slider_value m"
  proof -
    have h: "handle e (Slider_moved j) m = seek_frame e j (m\<lparr>slider_value := j\<rparr>)"
      using range by (simp add: handle_def slider_setValue_def Let_def)
    have "cap (m\<lparr>slider_value := j\<rparr>) = Some c"
      using assms(1) by simp
    from this assms(2-4,7,5,6)
    obtain m3 where "seek_frame e j (m\<lparr>slider_value := j\<rparr>) = Inr m3"
        "classified m3 = classified (m\<lparr>slider_value := j\<rparr>) @ [(frames c ! nat j, Inr p)]"
        "active_count m3 + idle_count m3 =
           active_count (m\<lparr>slider_value := j\<rparr>) + idle_count (m\<lparr>slider_value := j\<rparr>) + 1"
      by (rule seek_frame_effect)
    with h show ?thesis by simp
  qed
  from m1(1-6) m2
  have seeks: "seek_frame e j m = Inr m1 \<and>
      classified m1 = classified m @ [(frames c ! nat j, Inr p)] \<and>
      rendered m1 = rendered m @ [frames c ! nat j] \<and>
      active_count m1 + idle_count m1 = active_count m + idle_count m + 1 \<and>
      current_frame m1 = j \<and>
      is_playing m1 = is_playing m \<and>
      seek_frame e j m1 = Inr m2 \<and>
      classified m2 = classified m @ [(frames c ! nat j, Inr p), (frames c ! nat j, Inr p)] \<and>
      active_count m2 + idle_count m2 = active_count m + idle_count m + 2"
    by simp
  have moved: "slider_minimum m \<le> j \<and> j \<le> slider_maximum m \<and> j \<noteq> slider_value m \<longrightarrow>
      handle e (Slider_moved j) m = seek_frame e j (m\<lparr>slider_value := j\<rparr>) \<and>
      (\<exists>m3. handle e (Slider_moved j) m = Inr m3 \<and>
         classified m3 = classified m @ [(frames c ! nat j, Inr p)] \<and>
         active_count m3 + idle_count m3 = active_count m + idle_count m + 1)"
    by (rule impI) (rule slider)
  show ?thesis
    apply (rule exI [of _ m1])
    apply (rule exI [of _ m2])
    using seeks moved
    apply (elim conjE)
    apply (intro conjI; assumption)
    done
qed

theorem seek_counts_frame_witness:
  "case load_video stub_env ten_frames mp4_init of
     Inl err \<Rightarrow> False
   | Inr m \<Rightarrow>
       (\<exists>m1 m2.
          seek_frame stub_env 7 m = Inr m1 \<and> classified m1 = [(7, Inr 1)] \<and>
          seek_frame stub_env 7 m1 = Inr m2 \<and> classified m2 = [(7, Inr 1), (7, Inr 1)] \<and>
          active_count m2 + idle_count m2 = 2 \<and> is_playing m1 = False) \<and>
       (\<exists>m3. handle stub_env (Slider_moved 7) m = Inr m3 \<and> classified m3 = [(7, Inr 1)])"
proof (cases "load_video stub_env ten_frames mp4_init")
  case (Inl err)
  have "\<not> isl (load_video stub_env ten_frames mp4_init)"
    by code_simp
  with Inl show ?thesis by simp
next
  case (Inr m)
  have "case load_video stub_env ten_frames mp4_init of Inl err \<Rightarrow> False
    | Inr m \<Rightarrow> cap m = Some ten_frames \<and> classified m = [] \<and> active_count m = 0 \<and>
        idle_count m = 0 \<and> is_playing m = False \<and>
        slider_minimum m \<le> 7 \<and> 7 \<le> slider_maximum m \<and> 7 \<noteq> slider_value m"
    by code_simp
  with Inr have m: "cap m = Some ten_frames" "classified m = []" "active_count m = 0"
      "idle_count m = 0" "is_playing m = False"
      "slider_minimum m \<le> 7 \<and> 7 \<le> slider_maximum m \<and> 7 \<noteq> slider_value m"
    by simp_all
  have c: "is_opened ten_frames" "(0 :: int) \<le> 7" "7 < int (length (frames ten_frames))"
      "frames ten_frames ! nat 7 = 7"
    by (simp_all add: ten_frames_def)
  have e: "loaded stub_env" "predict stub_env (frames ten_frames ! nat 7) = Inr 1"
      "cvtColor stub_env (frames ten_frames ! nat 7) = Inr 7"
    by code_simp+
  from seek_counts_frame [OF m(1) c(1-3) e] m c(4)
  have "(\<exists>m1 m2.
          seek_frame stub_env 7 m = Inr m1 \<and> classified m1 = [(7, Inr 1)] \<and>
          seek_frame stub_env 7 m1 = Inr m2 \<and> classified m2 = [(7, Inr 1), (7, Inr 1)] \<and>
          active_count m2 + idle_count m2 = 2 \<and> is_playing m1 = False) \<and>
       (\<exists>m3. handle stub_env (Slider_moved 7) m = Inr m3 \<and> classified m3 = [(7, Inr 1)])"
    by auto
  with Inr show ?thesis by simp
qed

text \<open>
  C1, as the code has it. The decimation is in the worker thread alone: \<open>run\<close> emits
  \<open>frame_processed\<close> for the frames at the indices divisible by 5 and for no other frame,
  so for an opened file of \<open>N\<close> frames it emits \<open>(N + 4) div 5\<close> signals, the least whole
  number not below \<open>N / 5\<close>. The playback of the page does not decimate: each frame that
  \<open>update_frame\<close> reads while playing, when the slot returns, has been rendered and has
  been passed to \<open>analyze_frame\<close>, which runs the prediction on it when the classifier and
  the feature extractor are loaded.
\<close>

theorem decimation_in_worker_only:
  "(is_opened c \<longrightarrow>
      sampled_numbers (run e c) = filter (\<lambda>k. k mod 5 = 0) [0..<length (frames c)] \<and>
      length (sampled_numbers (run e c)) = (length (frames c) + 4) div 5) \<and>
   (Frame_processed f p k \<in> set (run e c) \<longrightarrow>
      k mod 5 = 0 \<and> k < length (frames c) \<and> f = frames c ! k) \<and>
   (cap m = Some c \<and> is_opened c \<and> is_playing m \<and> read c = Some (f, c1) \<and>
    update_frame e m = Inr m' \<longrightarrow>
      (\<exists>r r' k k'.
         rendered m' = rendered m @ r @ [f] @ r' \<and>
         classified m' =
           classified m @ k @ (if loaded e then [(f, predict e f)] else []) @ k'))"
proof (intro conjI impI)
  assume opened: "is_opened c"
  then show "sampled_numbers (run e c) = filter (\<lambda>k. k mod 5 = 0) [0..<length (frames c)]"
    by (rule run_numbers)
  then show "length (sampled_numbers (run e c)) = (length (frames c) + 4) div 5"
    by (simp add: count_multiples_of_5)
next
  assume "Frame_processed f p k \<in> set (run e c)"
  from run_signal [OF this]
  show "k mod 5 = 0" and "k < length (frames c)" and "f = frames c ! k"
    by simp_all
next
  assume "cap m = Some c \<and> is_opened c \<and> is_playing m \<and> read c = Some (f, c1) \<and>
    update_frame e m = Inr m'"
  then show "\<exists>r r' k k'.
      rendered m' = rendered m @ r @ [f] @ r' \<and>
      classified m' =
        classified m @ k @ (if loaded e then [(f, predict e f)] else []) @ k'"
    using update_frame_reads [of m c f c1 e m'] by simp
qed

theorem decimation_in_worker_only_witness:
  "sampled_numbers (run stub_env ten_frames) = [0, 5] \<and>
   length (sampled_numbers (run stub_env ten_frames)) = 2 \<and>
   (case run_events stub_env mp4_init [Upload ten_frames, Play_clicked] of
      Inl err \<Rightarrow> False
    | Inr s \<Rightarrow>
        (case update_frame stub_env s of
           Inl err \<Rightarrow> False
         | Inr s' \<Rightarrow>
             (\<exists>r r' k k'.
                rendered s' = rendered s @ r @ [0] @ r' \<and>
                classified s' = classified s @ k @ [(0, Inr 0)] @ k')))"
proof -
  have opened: "is_opened ten_frames"
    by (simp add: ten_frames_def)
  have len: "length (frames ten_frames) = 10"
    by (simp add: ten_frames_def)
  have upt: "filter (\<lambda>k. k mod 5 = 0) [0..<10] = [0, 5 :: nat]"
    by code_simp
  have sig: "Frame_processed 5 1 5 \<in> set (run stub_env ten_frames)"
    by code_simp
  have a: "sampled_numbers (run stub_env ten_frames) = [0, 5] \<and>
      length (sampled_numbers (run stub_env ten_frames)) = 2"
    using decimation_in_worker_only [where c = ten_frames and e = stub_env, THEN conjunct1]
      opened len upt by simp
  have b: "(5 :: nat) mod 5 = 0 \<and> 5 < length (frames ten_frames) \<and> 5 = frames ten_frames ! 5"
    using decimation_in_worker_only [where c = ten_frames and e = stub_env and f = 5 and p = 1
        and k = 5, THEN conjunct2, THEN conjunct1] sig by simp
  have pl: "case run_events stub_env mp4_init [Upload ten_frames, Play_clicked] of
      Inl err \<Rightarrow> False
    | Inr s \<Rightarrow> cap s = Some ten_frames \<and> is_playing s \<and> \<not> isl (update_frame stub_env s)"
    by code_simp
  have rd: "read ten_frames = Some (0, ten_frames\<lparr>pos := 1\<rparr>)"
    by (simp add: read_def ten_frames_def)
  have ld: "loaded stub_env" "predict stub_env 0 = Inr 0"
    by (simp_all add: stub_env_def loaded_def predict_def)
  have c: "case run_events stub_env mp4_init [Upload ten_frames, Play_clicked] of
      Inl err \<Rightarrow> False
    | Inr s \<Rightarrow>
        (case update_frame stub_env s of
           Inl err \<Rightarrow> False
         | Inr s' \<Rightarrow>
             (\<exists>r r' k k'.
                rendered s' = rendered s @ r @ [0] @ r' \<and>
                classified s' = classified s @ k @ [(0, Inr 0)] @ k'))"
  proof (cases "run_events stub_env mp4_init [Upload ten_frames, Play_clicked]")
    case (Inl err)
    with pl show ?thesis by (simp del: run_events.simps)
  next
    case (Inr s)
    with pl have s: "cap s = Some ten_frames" "is_playing s" "\<not> isl (update_frame stub_env s)"
      by (simp_all del: run_events.simps)
    from s(3) obtain s' where s': "update_frame stub_env s = Inr s'"
      by (cases "update_frame stub_env s") simp_all
    have "\<exists>r r' k k'.
        rendered s' = rendered s @ r @ [0] @ r' \<and>
        classified s' = classified s @ k @ [(0, Inr 0)] @ k'"
      using decimation_in_worker_only [where m = s and c = ten_frames and e = stub_env
          and f = 0 and ?c1.0 = "ten_frames\<lparr>pos := 1\<rparr>" and m' = s',
          THEN conjunct2, THEN conjunct2] s(1,2) opened rd s' ld
      by simp
    with Inr s' show ?thesis by (simp del: run_events.simps)
  qed
  from a b c show ?thesis by (simp del: run_events.simps)
qed

text \<open>
  C1, as the claim states it, fails on the code. Playing the ten-frame example file with
  the stub classifier loaded, ten timer ticks make more than the two predictions that
  sampling every fifth frame would give, and frame 1 is among the classified frames. The
  worker thread, which does sample every fifth frame, emits two of the ten frames (0 and 5)
  and no other, so the other eight are not passed on for display.
\<close>

theorem playback_is_not_decimated:
  "(case load_video stub_env ten_frames mp4_init of
      Inl err \<Rightarrow> False
    | Inr s0 \<Rightarrow>
        (case play_video s0 of
           Inl err \<Rightarrow> False
         | Inr s \<Rightarrow>
             (case ticks stub_env 10 s of
                Inl err \<Rightarrow> False
              | Inr s' \<Rightarrow>
                  (10 + 4) div 5 < length (classified s') \<and>
                  (1, Inr 1) \<in> set (classified s')))) \<and>
   length (frames ten_frames) = 10 \<and>
   run stub_env ten_frames = [Frame_processed 0 0 0, Frame_processed 5 1 5, Processing_complete]"
  by code_simp

end
